theory Spec2Isabelle
  imports Complex_Main "HOL-Library.Multiset" "HOL-Library.Signed_Division" "HOL-Library.Log_Nat"
begin

section \<open>Data model of the binned dataset core (src/io/dataset.cpp)\<close>

text \<open>
  Conventions of the embedding.
  \<^item> \<open>int\<close>, \<open>data_size_t\<close> (a 32-bit \<open>int\<close>) are modelled by the unbounded \<open>int\<close>:
    signed overflow is undefined in the source, so every statement is about runs whose
    counters stay inside the 32-bit range. Division of C++ integers truncates towards
    zero and is written \<open>sdiv\<close>.
  \<^item> \<open>hist_t\<close> is \<open>double\<close>. Where the source computes with histogram entries and a
    statement depends on the result (\<open>FixHistogram\<close>), they are values of the type
    \<open>double\<close> below, with the rounding of IEEE 754 binary64 arithmetic. Elsewhere
    (\<open>sparse_rate\<close>, sample values, the buffers of \<open>ConstructHistograms\<close>, whose
    statements do not depend on the arithmetic) \<open>double\<close>, \<open>hist_t\<close> and \<open>score_t\<close>
    values are \<open>real\<close>.
  \<^item> \<open>uint8_t\<close> conflict marks are naturals with the wrap-around \<open>mod 256\<close> written out.
  \<^item> Inside the bundler, feature numbers, group numbers and sample rows, which the source
    only ever uses as vector positions, are \<open>nat\<close>; \<open>best_gid\<close>, which carries the
    sentinel \<open>-1\<close>, is \<open>int\<close>. The \<open>std::vector<int>\<close> members of the dataset are
    lists of \<open>int\<close>.
  \<^item> A raw read \<open>v[i]\<close> outside a vector and a null dereference are undefined behaviour
    in the source; the model reads with \<open>!\<close> and \<open>the\<close>, and the statements that depend
    on such a read carry the range condition as a hypothesis. What the source raises
    (\<open>CHECK\<close>, \<open>Log::Fatal\<close>, \<open>std::runtime_error\<close>, a vector of negative size) is a
    value of \<open>error\<close>, and so are an integer division by zero and the use of the sentinel
    \<open>-1\<close> as a vector position.
\<close>

datatype error =
    Fatal              \<comment> \<open>\<open>CHECK\<close> failed or \<open>Log::Fatal\<close>\<close>
  | RuntimeError       \<comment> \<open>\<open>throw std::runtime_error\<close>\<close>
  | LengthError        \<comment> \<open>\<open>std::vector\<close> constructed with a negative size\<close>
  | NegativeIndex      \<comment> \<open>a vector indexed with the sentinel \<open>-1\<close>\<close>
  | DivideByZero       \<comment> \<open>integer division by zero\<close>

text \<open>A loop whose body may fail stops at the first failure.\<close>

fun fold_err :: "('a \<Rightarrow> 's \<Rightarrow> error + 's) \<Rightarrow> 'a list \<Rightarrow> 's \<Rightarrow> error + 's" where
  "fold_err f [] s = Inr s"
| "fold_err f (x # xs) s = (case f x s of Inl e \<Rightarrow> Inl e | Inr s' \<Rightarrow> fold_err f xs s')"

text \<open>
  \<open>BinMapper\<close> is declared outside this file; the record holds what the queries used here
  return, each converted to \<open>int\<close> (\<open>GetDefaultBin\<close>, \<open>GetMostFreqBin\<close> and
  \<open>ValueToBin\<close> return \<open>uint32_t\<close>; the source compares them with each other, with
  \<open>0\<close>, or assigns them to an \<open>int\<close>).
\<close>

record BinMapper =
  num_bin :: int
  GetDefaultBin :: int
  GetMostFreqBin :: int
  is_trivial :: bool
  sparse_rate :: real
  ValueToBin :: "real \<Rightarrow> int"

text \<open>\<open>FeatureGroup\<close>: the constructor arguments the dataset passes, and \<open>num_total_bin_m\<close>.\<close>

text \<open>
  Member variables keep their names with the suffix \<open>_m\<close> in place of the trailing
  underscore of the source (\<open>num_data_\<close> is \<open>num_data_m\<close>).
\<close>

record FeatureGroup =
  num_feature_m :: int
  is_multi_val_m :: bool
  bin_mappers_m :: "BinMapper list"
  num_total_bin_m :: int

text \<open>
  Modelled from the spec: \<open>Metadata\<close> is an external collaborator ("per-row labels, weights,
  init-scores, query boundaries"); only its binary image and the size of that image are used
  in this file.
\<close>

record Metadata =
  label :: "real list"
  weights :: "real list"
  init_score :: "real list"
  query_boundaries :: "int list"

record Dataset =
  data_filename_m :: string
  num_data_m :: int
  num_features_m :: int
  num_total_features_m :: int
  num_groups_m :: int
  label_idx_m :: int
  feature_names_m :: "string list"
  feature_groups_m :: "FeatureGroup list"
  used_feature_map_m :: "int list"
  real_feature_idx_m :: "int list"
  feature2group_m :: "int list"
  feature2subfeature_m :: "int list"
  group_bin_boundaries_m :: "int list"
  group_feature_start_m :: "int list"
  group_feature_cnt_m :: "int list"
  feature_need_push_zeros_m :: "int list"
  monotone_types_m :: "int list"
  feature_penalty_m :: "real list"
  max_bin_by_feature_m :: "int list"
  forced_bin_bounds_m :: "real list list"
  max_bin_m :: int
  min_data_in_bin_m :: int
  bin_construct_sample_cnt_m :: int
  use_missing_m :: bool
  zero_as_missing_m :: bool
  metadata_m :: Metadata
  is_finish_load_m :: bool
  hist_buf_m :: "real list"

text \<open>
  A \<open>size_t\<close> is a natural below \<open>2 ^ 64\<close>; an \<open>int\<close> passed where a \<open>size_t\<close> is
  expected is converted modulo \<open>2 ^ 64\<close>. The \<open>uint64_t\<close> bin boundaries are integers
  in \<open>[0, 2 ^ 64)\<close>, with the wrap-around written out where they are added.
\<close>

definition to_size_t :: "int \<Rightarrow> nat" where
  "to_size_t x = nat (x mod 2 ^ 64)"

text \<open>
  Modelled from the spec: \<open>ArrayArgs::Assign\<close>, \<open>CheckAllZero\<close> and \<open>CheckAll\<close> are
  declared in \<open>array_args.h\<close>: the writer emits the default value in every position when a
  vector is logically empty, and a vector that holds only the default is compacted to empty.
\<close>

definition Assign :: "'a \<Rightarrow> int \<Rightarrow> 'a list" where
  "Assign v n = replicate (nat n) v"

definition CheckAll :: "'a list \<Rightarrow> 'a \<Rightarrow> bool" where
  "CheckAll xs v = list_all (\<lambda>x. x = v) xs"

section \<open>The bundler: helpers\<close>

text \<open>
  Modelled from the spec: the class \<open>Random\<close> is declared in \<open>utils/random.h\<close>, which is
  not part of the sources. A generator is a state of some type \<open>'r\<close> with the three
  operations the bundler uses: the constructor from a seed, \<open>Sample(N, K)\<close> ("a uniform
  random sample" of \<open>K\<close> positions below \<open>N\<close>) and \<open>NextShort(lower, upper)\<close> ("draw
  \<open>j \<in> [i+1, num_group)\<close>"); the two draws return the advanced state as well.
  \<open>Random_ok\<close> is that contract: sampled positions are below \<open>N\<close>, and a draw from a
  non-empty range lies in the range.
\<close>

record 'r Random =
  Random_seed :: "int \<Rightarrow> 'r"
  Sample :: "'r \<Rightarrow> int \<Rightarrow> int \<Rightarrow> nat list \<times> 'r"
  NextShort :: "'r \<Rightarrow> int \<Rightarrow> int \<Rightarrow> int \<times> 'r"

definition Random_ok :: "'r Random \<Rightarrow> bool" where
  "Random_ok R \<longleftrightarrow>
     (\<forall>r N K. \<forall>i \<in> set (fst (Sample R r N K)). int i < N) \<and>
     (\<forall>r lower upper. lower < upper \<longrightarrow>
        lower \<le> fst (NextShort R r lower upper) \<and> fst (NextShort R r lower upper) < upper)"

definition NoGroup :: "nat list \<Rightarrow> nat list list" where
  "NoGroup used_features = map (\<lambda>f. [f]) used_features"

text \<open>
  \<open>GetConfilctCount\<close>: the loop over the first \<open>num_indices\<close> sample rows, with its two
  early returns of \<open>-1\<close>.
\<close>

fun GetConfilctCount_loop :: "nat list \<Rightarrow> nat list \<Rightarrow> int \<Rightarrow> int \<Rightarrow> int \<Rightarrow> int" where
  "GetConfilctCount_loop mark [] ret max_cnt max_feature_cnt = ret"
| "GetConfilctCount_loop mark (idx # indices) ret max_cnt max_feature_cnt =
     (let ret' = (if mark ! idx \<noteq> 0 then ret + 1 else ret)
      in if mark ! idx \<noteq> 0 \<and> int (mark ! idx) + 1 > max_feature_cnt then -1
         else if ret' \<ge> max_cnt then -1
         else GetConfilctCount_loop mark indices ret' max_cnt max_feature_cnt)"

definition GetConfilctCount :: "nat list \<Rightarrow> nat list \<Rightarrow> int \<Rightarrow> int \<Rightarrow> int \<Rightarrow> int" where
  "GetConfilctCount mark indices num_indices max_cnt max_feature_cnt =
     GetConfilctCount_loop mark (take (nat num_indices) indices) 0 max_cnt max_feature_cnt"

definition MarkUsed :: "nat list \<Rightarrow> nat list \<Rightarrow> int \<Rightarrow> nat list" where
  "MarkUsed mark indices num_indices =
     fold (\<lambda>idx m. m[idx := (m ! idx + 1) mod 256]) (take (nat num_indices) indices) mark"

text \<open>\<open>FixSampleIndices\<close>: the \<open>while\<close> loop advances \<open>i\<close> or \<open>j\<close> in every iteration.\<close>

function FixSampleIndices_loop ::
  "BinMapper \<Rightarrow> int \<Rightarrow> int \<Rightarrow> nat list \<Rightarrow> real list \<Rightarrow> nat \<Rightarrow> nat \<Rightarrow> nat list \<Rightarrow> nat list" where
  "FixSampleIndices_loop bin_mapper num_total_samples num_indices indices vals i j ret =
     (if int i < num_total_samples then
        (if int j < num_indices \<and> indices ! j < i then
           FixSampleIndices_loop bin_mapper num_total_samples num_indices indices vals i (j + 1) ret
         else if int j < num_indices \<and> indices ! j = i then
           FixSampleIndices_loop bin_mapper num_total_samples num_indices indices vals (i + 1) j
             (if ValueToBin bin_mapper (vals ! j) \<noteq> GetMostFreqBin bin_mapper
              then ret @ [i] else ret)
         else
           FixSampleIndices_loop bin_mapper num_total_samples num_indices indices vals (i + 1) j
             (ret @ [i]))
      else ret)"
  by pat_completeness auto
termination
  by (relation "measure (\<lambda>(bm, n, k, indices, vals, i, j, ret). nat (n - int i) + nat (k - int j))")
     auto

definition FixSampleIndices ::
  "BinMapper \<Rightarrow> int \<Rightarrow> int \<Rightarrow> nat list \<Rightarrow> real list \<Rightarrow> nat list" where
  "FixSampleIndices bin_mapper num_total_samples num_indices indices vals =
     (if GetDefaultBin bin_mapper = GetMostFreqBin bin_mapper then []
      else FixSampleIndices_loop bin_mapper num_total_samples num_indices indices vals 0 0 [])"

section \<open>The bundler: FindGroups\<close>

text \<open>The tuning constants of \<open>FindGroups\<close>.\<close>

definition max_search_group :: int where
  "max_search_group = 100"

definition max_bin_per_group :: int where
  "max_bin_per_group = 256"

definition single_val_max_conflict_cnt :: "int \<Rightarrow> int" where
  "single_val_max_conflict_cnt total_sample_cnt = total_sample_cnt sdiv 10000"

definition max_samples_per_multi_val_group :: "int \<Rightarrow> int" where
  "max_samples_per_multi_val_group total_sample_cnt = total_sample_cnt * 10"

definition max_concurrent_feature_per_group :: int where
  "max_concurrent_feature_per_group = 64"

definition max_bin_per_multi_val_group :: int where
  "max_bin_per_multi_val_group = 2 ^ 14"

text \<open>
  \<open>dense_rate >= dense_threshold\<close>, that is \<open>double(used) / S >= 0.6\<close>. For 32-bit
  counts and \<open>S \<noteq> 0\<close> the comparison of the rounded quotient with the double nearest to
  \<open>0.6\<close> has the value of the exact comparison \<open>used / S \<ge> 3 / 5\<close> (a quotient below
  \<open>3/5\<close> is below it by at least \<open>1 / (5 S)\<close>, far more than the rounding). For
  \<open>S = 0\<close> the quotient is \<open>+\<infinity>\<close> when \<open>used > 0\<close> and otherwise \<open>NaN\<close> or
  \<open>-\<infinity>\<close>, for which the comparison is false.
\<close>

definition is_dense :: "int \<Rightarrow> int \<Rightarrow> bool" where
  "is_dense used total_sample_cnt =
     (if total_sample_cnt > 0 then 5 * used \<ge> 3 * total_sample_cnt
      else if total_sample_cnt < 0 then 5 * used \<le> 3 * total_sample_cnt
      else used > 0)"

text \<open>
  The vectors \<open>FindGroups\<close> keeps per group, the two flag vectors of the second round and
  the generator \<open>rand\<close>.
\<close>

record 'r FindGroups_state =
  features_in_group :: "nat list list"
  conflict_marks :: "nat list list"
  group_used_row_cnt :: "int list"
  group_total_data_cnt :: "int list"
  group_num_bin :: "int list"
  multi_val_group :: "bool list"
  forced_single_val_group :: "bool list"
  rand :: 'r

text \<open>
  What both rounds compute for the feature \<open>fidx\<close> at the head of an iteration:
  \<open>is_filtered_feature\<close>, \<open>cur_non_zero_cnt\<close> and the bins the feature adds to a group,
  \<open>num_bin() + (GetDefaultBin() == 0 ? -1 : 0)\<close>.
\<close>

definition is_filtered_feature :: "int \<Rightarrow> nat \<Rightarrow> bool" where
  "is_filtered_feature num_sample_col fidx \<longleftrightarrow> int fidx \<ge> num_sample_col"

definition cur_non_zero_cnt :: "int list \<Rightarrow> int \<Rightarrow> nat \<Rightarrow> int" where
  "cur_non_zero_cnt num_per_col num_sample_col fidx =
     (if is_filtered_feature num_sample_col fidx then 0 else num_per_col ! fidx)"

definition delta_bin :: "BinMapper option list \<Rightarrow> nat \<Rightarrow> int" where
  "delta_bin bin_mappers fidx =
     num_bin (the (bin_mappers ! fidx))
       + (if GetDefaultBin (the (bin_mappers ! fidx)) = 0 then -1 else 0)"

text \<open>The search set: the last available group, then a sample of the others.\<close>

definition select_search_groups :: "'r Random \<Rightarrow> 'r \<Rightarrow> nat list \<Rightarrow> nat list \<times> 'r" where
  "select_search_groups R r available_groups =
     (if available_groups \<noteq> [] then
        (let last_pos = int (length available_groups) - 1;
             (indices, r') = Sample R r last_pos (min last_pos (max_search_group - 1))
         in (last available_groups # map (\<lambda>idx. available_groups ! idx) indices, r'))
      else ([], r))"

text \<open>
  The updates both rounds make when the feature joins the group \<open>best_gid\<close>, and when it
  starts a new group; \<open>conflict_marks.emplace_back(total_sample_cnt, 0)\<close> raises for a
  negative size.
\<close>

definition join_group ::
  "nat \<Rightarrow> bool \<Rightarrow> int \<Rightarrow> nat list \<Rightarrow> int \<Rightarrow> nat \<Rightarrow> int \<Rightarrow> 'r FindGroups_state \<Rightarrow> 'r FindGroups_state" where
  "join_group fidx filtered nz indices dbin best_gid best_conflict_cnt st =
     st\<lparr>features_in_group :=
          (features_in_group st)[best_gid := features_in_group st ! best_gid @ [fidx]],
        group_total_data_cnt :=
          (group_total_data_cnt st)[best_gid := group_total_data_cnt st ! best_gid + nz],
        group_used_row_cnt :=
          (group_used_row_cnt st)
            [best_gid := group_used_row_cnt st ! best_gid + (nz - best_conflict_cnt)],
        conflict_marks :=
          (if \<not> filtered
           then (conflict_marks st)[best_gid := MarkUsed (conflict_marks st ! best_gid) indices nz]
           else conflict_marks st),
        group_num_bin := (group_num_bin st)[best_gid := group_num_bin st ! best_gid + dbin]\<rparr>"

definition new_group ::
  "int \<Rightarrow> nat \<Rightarrow> bool \<Rightarrow> int \<Rightarrow> nat list \<Rightarrow> int \<Rightarrow> 'r FindGroups_state
   \<Rightarrow> error + 'r FindGroups_state" where
  "new_group total_sample_cnt fidx filtered nz indices dbin st =
     (if total_sample_cnt < 0 then Inl LengthError
      else Inr (st\<lparr>
        features_in_group := features_in_group st @ [[fidx]],
        conflict_marks := conflict_marks st @
          [if \<not> filtered then MarkUsed (replicate (nat total_sample_cnt) 0) indices nz
           else replicate (nat total_sample_cnt) 0],
        group_total_data_cnt := group_total_data_cnt st @ [nz],
        group_used_row_cnt := group_used_row_cnt st @ [nz],
        group_num_bin := group_num_bin st @ [1 + dbin]\<rparr>))"

subsection \<open>First round: the single-valued groups\<close>

definition available_groups1 ::
  "int \<Rightarrow> bool \<Rightarrow> 'r FindGroups_state \<Rightarrow> int \<Rightarrow> int \<Rightarrow> nat list" where
  "available_groups1 total_sample_cnt is_use_gpu st nz dbin =
     filter (\<lambda>gid.
        let cur_num_bin = group_num_bin st ! gid + dbin
        in group_total_data_cnt st ! gid + nz
             \<le> total_sample_cnt + single_val_max_conflict_cnt total_sample_cnt
           \<and> (\<not> is_use_gpu \<or> cur_num_bin \<le> max_bin_per_group))
       [0..<length (features_in_group st)]"

text \<open>
  The search loop of the first round returns \<open>(best_gid, best_conflict_cnt)\<close>; it stops
  at the first group that accepts the feature.
\<close>

fun search1 ::
  "int \<Rightarrow> 'r FindGroups_state \<Rightarrow> bool \<Rightarrow> int \<Rightarrow> nat list \<Rightarrow> nat list \<Rightarrow> int \<times> int" where
  "search1 total_sample_cnt st filtered nz indices [] = (-1, -1)"
| "search1 total_sample_cnt st filtered nz indices (gid # search_groups) =
     (let rest_max_cnt = single_val_max_conflict_cnt total_sample_cnt
                           - group_total_data_cnt st ! gid + group_used_row_cnt st ! gid;
          cnt = (if filtered then 0
                 else GetConfilctCount (conflict_marks st ! gid) indices nz rest_max_cnt 1)
      in if cnt \<ge> 0 \<and> cnt \<le> rest_max_cnt \<and> cnt \<le> nz sdiv 2 then (int gid, cnt)
         else search1 total_sample_cnt st filtered nz indices search_groups)"

definition round1_step ::
  "'r Random \<Rightarrow> BinMapper option list \<Rightarrow> nat list list \<Rightarrow> int list \<Rightarrow> int \<Rightarrow> int \<Rightarrow> bool
   \<Rightarrow> nat \<Rightarrow> 'r FindGroups_state \<Rightarrow> error + 'r FindGroups_state" where
  "round1_step R bin_mappers sample_indices num_per_col num_sample_col total_sample_cnt
       is_use_gpu fidx st =
     (let filtered = is_filtered_feature num_sample_col fidx;
          nz = cur_non_zero_cnt num_per_col num_sample_col fidx;
          dbin = delta_bin bin_mappers fidx;
          indices = (if filtered then [] else sample_indices ! fidx);
          available_groups = available_groups1 total_sample_cnt is_use_gpu st nz dbin;
          (search_groups, r) = select_search_groups R (rand st) available_groups;
          (best_gid, best_conflict_cnt) =
             search1 total_sample_cnt st filtered nz indices search_groups;
          st' = st\<lparr>rand := r\<rparr>
      in if best_gid \<ge> 0
         then Inr (join_group fidx filtered nz indices dbin (nat best_gid) best_conflict_cnt st')
         else new_group total_sample_cnt fidx filtered nz indices dbin st')"

subsection \<open>Between the rounds\<close>

text \<open>
  Groups of the first round whose \<open>dense_rate\<close> reaches the threshold are kept, in their
  order, as forced single-valued groups; the features of all the others go to the second
  round. \<open>multi_val_group\<close> was cleared on entry and is resized with \<open>false\<close>.
\<close>

definition dense_groups :: "int \<Rightarrow> 'r FindGroups_state \<Rightarrow> nat list" where
  "dense_groups total_sample_cnt st =
     filter (\<lambda>gid. is_dense (group_used_row_cnt st ! gid) total_sample_cnt)
       [0..<length (features_in_group st)]"

definition second_round_features :: "int \<Rightarrow> 'r FindGroups_state \<Rightarrow> nat list" where
  "second_round_features total_sample_cnt st =
     concat (map (\<lambda>gid. features_in_group st ! gid)
       (filter (\<lambda>gid. \<not> is_dense (group_used_row_cnt st ! gid) total_sample_cnt)
          [0..<length (features_in_group st)]))"

definition keep_dense_groups :: "int \<Rightarrow> 'r FindGroups_state \<Rightarrow> 'r FindGroups_state" where
  "keep_dense_groups total_sample_cnt st =
     (let keep = dense_groups total_sample_cnt st
      in st\<lparr>features_in_group := map (\<lambda>gid. features_in_group st ! gid) keep,
            conflict_marks := map (\<lambda>gid. conflict_marks st ! gid) keep,
            group_used_row_cnt := map (\<lambda>gid. group_used_row_cnt st ! gid) keep,
            group_total_data_cnt := map (\<lambda>gid. group_total_data_cnt st ! gid) keep,
            group_num_bin := map (\<lambda>gid. group_num_bin st ! gid) keep,
            forced_single_val_group := replicate (length keep) True,
            multi_val_group := replicate (length keep) False\<rparr>)"

subsection \<open>Second round: the multi-valued groups\<close>

definition available_groups2 ::
  "int \<Rightarrow> bool \<Rightarrow> 'r FindGroups_state \<Rightarrow> int \<Rightarrow> int \<Rightarrow> nat list" where
  "available_groups2 total_sample_cnt is_use_gpu st nz dbin =
     filter (\<lambda>gid.
        let cur_num_bin = group_num_bin st ! gid + dbin
        in \<not> (multi_val_group st ! gid
                \<and> group_num_bin st ! gid + cur_num_bin > max_bin_per_multi_val_group)
           \<and> (let max_sample_cnt =
                     (if forced_single_val_group st ! gid
                      then total_sample_cnt + single_val_max_conflict_cnt total_sample_cnt
                      else max_samples_per_multi_val_group total_sample_cnt)
               in group_total_data_cnt st ! gid + nz \<le> max_sample_cnt
                  \<and> (\<not> is_use_gpu \<or> cur_num_bin \<le> max_bin_per_group)))
       [0..<length (features_in_group st)]"

text \<open>
  The tie-break expression
  \<open>cnt < best_conflict_cnt || (cnt == best_conflict_cnt && (forced_single_val_group[gid] ||
  group_total_data_cnt[best_gid] > group_total_data_cnt[gid]))\<close>, evaluated left to right with
  short-circuit; reading \<open>group_total_data_cnt[best_gid]\<close> while \<open>best_gid\<close> is still \<open>-1\<close>
  is the failure \<open>NegativeIndex\<close>.
\<close>

definition tie_break ::
  "'r FindGroups_state \<Rightarrow> nat \<Rightarrow> int \<Rightarrow> int \<Rightarrow> int \<Rightarrow> error + bool" where
  "tie_break st gid cnt best_gid best_conflict_cnt =
     (if cnt < best_conflict_cnt then Inr True
      else if cnt = best_conflict_cnt then
        (if forced_single_val_group st ! gid then Inr True
         else if best_gid < 0 then Inl NegativeIndex
         else Inr (group_total_data_cnt st ! nat best_gid > group_total_data_cnt st ! gid))
      else Inr False)"

text \<open>
  One iteration of the search loop of the second round, from the current
  \<open>(best_gid, best_conflict_cnt)\<close>: the new pair and whether the loop ends here
  (\<open>break\<close> on a forced group without conflict); a negative count is the \<open>continue\<close>.
\<close>

definition search2_iter ::
  "int \<Rightarrow> 'r FindGroups_state \<Rightarrow> bool \<Rightarrow> int \<Rightarrow> nat list \<Rightarrow> nat \<Rightarrow> int \<times> int
   \<Rightarrow> error + (bool \<times> int \<times> int)" where
  "search2_iter total_sample_cnt st filtered nz indices gid best =
     (let (best_gid, best_conflict_cnt) = best;
          rest_max_cnt =
            (if forced_single_val_group st ! gid
             then min total_sample_cnt
                    (single_val_max_conflict_cnt total_sample_cnt
                       - group_total_data_cnt st ! gid + group_used_row_cnt st ! gid)
             else total_sample_cnt);
          cnt = (if filtered then 0
                 else GetConfilctCount (conflict_marks st ! gid) indices nz rest_max_cnt
                        max_concurrent_feature_per_group)
      in if cnt < 0 then Inr (False, best_gid, best_conflict_cnt)
         else
           (case tie_break st gid cnt best_gid best_conflict_cnt of
              Inl e \<Rightarrow> Inl e
            | Inr better \<Rightarrow>
                Inr (cnt = 0 \<and> forced_single_val_group st ! gid,
                     if better then int gid else best_gid,
                     if better then cnt else best_conflict_cnt)))"

text \<open>A loop over a vector whose body may fail or \<open>break\<close>.\<close>

fun fold_break :: "('a \<Rightarrow> 's \<Rightarrow> error + (bool \<times> 's)) \<Rightarrow> 'a list \<Rightarrow> 's \<Rightarrow> error + 's" where
  "fold_break f [] s = Inr s"
| "fold_break f (x # xs) s =
     (case f x s of
        Inl e \<Rightarrow> Inl e
      | Inr (stop, s') \<Rightarrow> if stop then Inr s' else fold_break f xs s')"

definition search2 ::
  "int \<Rightarrow> 'r FindGroups_state \<Rightarrow> bool \<Rightarrow> int \<Rightarrow> nat list \<Rightarrow> nat list \<Rightarrow> error + (int \<times> int)" where
  "search2 total_sample_cnt st filtered nz indices search_groups =
     fold_break (search2_iter total_sample_cnt st filtered nz indices) search_groups
       (-1, total_sample_cnt + 1)"

text \<open>
  After a feature joined the group \<open>best_gid\<close> in the second round, the group becomes
  multi-valued once its conflicts exceed \<open>single_val_max_conflict_cnt\<close>.
  (\<open>multi_val_group->at(best_gid)\<close> is a checked access; the flags have one entry per
  group, see \<open>round2_step_aligned\<close>.)
\<close>

definition mark_multi_val :: "int \<Rightarrow> nat \<Rightarrow> 'r FindGroups_state \<Rightarrow> 'r FindGroups_state" where
  "mark_multi_val total_sample_cnt best_gid st =
     (if \<not> multi_val_group st ! best_gid
         \<and> group_total_data_cnt st ! best_gid - group_used_row_cnt st ! best_gid
             > single_val_max_conflict_cnt total_sample_cnt
      then st\<lparr>multi_val_group := (multi_val_group st)[best_gid := True]\<rparr>
      else st)"

definition round2_step ::
  "'r Random \<Rightarrow> BinMapper option list \<Rightarrow> nat list list \<Rightarrow> int list \<Rightarrow> int \<Rightarrow> int \<Rightarrow> bool
   \<Rightarrow> nat \<Rightarrow> 'r FindGroups_state \<Rightarrow> error + 'r FindGroups_state" where
  "round2_step R bin_mappers sample_indices num_per_col num_sample_col total_sample_cnt
       is_use_gpu fidx st =
     (let filtered = is_filtered_feature num_sample_col fidx;
          nz = cur_non_zero_cnt num_per_col num_sample_col fidx;
          dbin = delta_bin bin_mappers fidx;
          indices = (if filtered then [] else sample_indices ! fidx);
          available_groups = available_groups2 total_sample_cnt is_use_gpu st nz dbin;
          (search_groups, r) = select_search_groups R (rand st) available_groups;
          st' = st\<lparr>rand := r\<rparr>
      in case search2 total_sample_cnt st filtered nz indices search_groups of
           Inl e \<Rightarrow> Inl e
         | Inr (best_gid, best_conflict_cnt) \<Rightarrow>
             if best_gid \<ge> 0 then
               Inr (mark_multi_val total_sample_cnt (nat best_gid)
                      (join_group fidx filtered nz indices dbin (nat best_gid)
                         best_conflict_cnt st'))
             else
               (case new_group total_sample_cnt fidx filtered nz indices dbin st' of
                  Inl e \<Rightarrow> Inl e
                | Inr st1 \<Rightarrow>
                    Inr (st1\<lparr>forced_single_val_group := forced_single_val_group st1 @ [False],
                             multi_val_group := multi_val_group st1 @ [False]\<rparr>)))"

subsection \<open>FindGroups\<close>

text \<open>
  \<open>FindGroups_run\<close> is the state of \<open>FindGroups\<close> at its \<open>return\<close>: the first round
  over \<open>find_order\<close>, the split, the second round over \<open>second_round_features\<close>.
  \<open>FindGroups\<close> is the pair of the returned \<open>features_in_group\<close> and the flags left in
  \<open>*multi_val_group\<close>. \<open>FindGroups_rounds k\<close> stops the second round before its
  iteration \<open>k\<close>: it is the state at the head of that iteration.
\<close>

definition FindGroups_init :: "'r Random \<Rightarrow> int \<Rightarrow> 'r FindGroups_state" where
  "FindGroups_init R num_data =
     \<lparr>features_in_group = [], conflict_marks = [], group_used_row_cnt = [],
      group_total_data_cnt = [], group_num_bin = [], multi_val_group = [],
      forced_single_val_group = [], rand = Random_seed R num_data\<rparr>"

definition FindGroups_round1 ::
  "'r Random \<Rightarrow> BinMapper option list \<Rightarrow> nat list \<Rightarrow> nat list list \<Rightarrow> int list \<Rightarrow> int \<Rightarrow> int
   \<Rightarrow> int \<Rightarrow> bool \<Rightarrow> error + 'r FindGroups_state" where
  "FindGroups_round1 R bin_mappers find_order sample_indices num_per_col num_sample_col
       total_sample_cnt num_data is_use_gpu =
     fold_err (round1_step R bin_mappers sample_indices num_per_col num_sample_col
                 total_sample_cnt is_use_gpu)
       find_order (FindGroups_init R num_data)"

definition FindGroups_rounds ::
  "nat \<Rightarrow> 'r Random \<Rightarrow> BinMapper option list \<Rightarrow> nat list \<Rightarrow> nat list list \<Rightarrow> int list \<Rightarrow> int
   \<Rightarrow> int \<Rightarrow> int \<Rightarrow> bool \<Rightarrow> error + 'r FindGroups_state" where
  "FindGroups_rounds k R bin_mappers find_order sample_indices num_per_col num_sample_col
       total_sample_cnt num_data is_use_gpu =
     (case FindGroups_round1 R bin_mappers find_order sample_indices num_per_col
             num_sample_col total_sample_cnt num_data is_use_gpu of
        Inl e \<Rightarrow> Inl e
      | Inr st \<Rightarrow>
          fold_err (round2_step R bin_mappers sample_indices num_per_col num_sample_col
                      total_sample_cnt is_use_gpu)
            (take k (second_round_features total_sample_cnt st))
            (keep_dense_groups total_sample_cnt st))"

definition FindGroups_run ::
  "'r Random \<Rightarrow> BinMapper option list \<Rightarrow> nat list \<Rightarrow> nat list list \<Rightarrow> int list \<Rightarrow> int
   \<Rightarrow> int \<Rightarrow> int \<Rightarrow> bool \<Rightarrow> error + 'r FindGroups_state" where
  "FindGroups_run R bin_mappers find_order sample_indices num_per_col num_sample_col
       total_sample_cnt num_data is_use_gpu =
     (case FindGroups_round1 R bin_mappers find_order sample_indices num_per_col
             num_sample_col total_sample_cnt num_data is_use_gpu of
        Inl e \<Rightarrow> Inl e
      | Inr st \<Rightarrow>
          fold_err (round2_step R bin_mappers sample_indices num_per_col num_sample_col
                      total_sample_cnt is_use_gpu)
            (second_round_features total_sample_cnt st)
            (keep_dense_groups total_sample_cnt st))"

definition FindGroups ::
  "'r Random \<Rightarrow> BinMapper option list \<Rightarrow> nat list \<Rightarrow> nat list list \<Rightarrow> int list \<Rightarrow> int
   \<Rightarrow> int \<Rightarrow> int \<Rightarrow> bool \<Rightarrow> error + (nat list list \<times> bool list)" where
  "FindGroups R bin_mappers find_order sample_indices num_per_col num_sample_col
       total_sample_cnt num_data is_use_gpu =
     (case FindGroups_run R bin_mappers find_order sample_indices num_per_col num_sample_col
             total_sample_cnt num_data is_use_gpu of
        Inl e \<Rightarrow> Inl e
      | Inr st \<Rightarrow> Inr (features_in_group st, multi_val_group st))"

section \<open>The bundler: FastFeatureBundling\<close>

text \<open>
  The sample-index fixup of one used feature: the feature's entry of \<open>sample_indices\<close>
  (the pointer the source redirects to the synthesised list) and of \<open>tmp_num_per_col\<close>.
\<close>

definition fix_feature ::
  "BinMapper option list \<Rightarrow> real list list \<Rightarrow> int list \<Rightarrow> int \<Rightarrow> int \<Rightarrow> nat
   \<Rightarrow> nat list list \<times> int list \<Rightarrow> nat list list \<times> int list" where
  "fix_feature bin_mappers sample_values num_per_col num_sample_col total_sample_cnt fidx p =
     (let (sample_indices, tmp_num_per_col) = p
      in if int fidx \<ge> num_sample_col then (sample_indices, tmp_num_per_col)
         else
           (let ret = FixSampleIndices (the (bin_mappers ! fidx)) total_sample_cnt
                        (num_per_col ! fidx) (sample_indices ! fidx) (sample_values ! fidx)
            in if ret \<noteq> []
               then (sample_indices[fidx := ret], tmp_num_per_col[fidx := int (length ret)])
               else (sample_indices, tmp_num_per_col[fidx := num_per_col ! fidx])))"

text \<open>
  \<open>sorted_idx\<close>: the positions of \<open>used_features\<close> in the stable order of decreasing
  \<open>feature_non_zero_cnt\<close>, whose entries are \<open>size_t\<close>. \<open>sort_key\<close> is a stable
  insertion sort, and \<open>std::stable_sort\<close> with the comparison \<open>cnt[a] > cnt[b]\<close>
  returns the one stable arrangement in decreasing order.
\<close>

definition feature_non_zero_cnt :: "int list \<Rightarrow> int \<Rightarrow> nat list \<Rightarrow> nat list" where
  "feature_non_zero_cnt num_per_col num_sample_col used_features =
     map (\<lambda>fidx. if int fidx < num_sample_col then to_size_t (num_per_col ! fidx) else 0)
       used_features"

definition sorted_idx :: "nat list \<Rightarrow> nat list" where
  "sorted_idx cnt = sort_key (\<lambda>i. - int (cnt ! i)) [0..<length cnt]"

definition feature_order_by_cnt :: "int list \<Rightarrow> int \<Rightarrow> nat list \<Rightarrow> nat list" where
  "feature_order_by_cnt num_per_col num_sample_col used_features =
     map (\<lambda>sidx. used_features ! sidx)
       (sorted_idx (feature_non_zero_cnt num_per_col num_sample_col used_features))"

text \<open>
  The shuffle: iteration \<open>i\<close> draws \<open>j\<close> and swaps the entries \<open>i\<close> and \<open>j\<close> of both
  vectors.
\<close>

definition swap_entries :: "'a list \<Rightarrow> nat \<Rightarrow> nat \<Rightarrow> 'a list" where
  "swap_entries xs i j = xs[i := xs ! j, j := xs ! i]"

definition shuffle_step ::
  "'r Random \<Rightarrow> nat \<Rightarrow> 'r \<times> nat list list \<times> bool list \<Rightarrow> 'r \<times> nat list list \<times> bool list" where
  "shuffle_step R i p =
     (let (r, groups, flags) = p;
          (j, r') = NextShort R r (int i + 1) (int (length groups))
      in (r', swap_entries groups i (nat j), swap_entries flags i (nat j)))"

definition shuffle_groups ::
  "'r Random \<Rightarrow> int \<Rightarrow> nat list list \<Rightarrow> bool list \<Rightarrow> nat list list \<times> bool list" where
  "shuffle_groups R num_data groups flags =
     snd (fold (shuffle_step R) [0..<nat (int (length groups) - 1)]
            (Random_seed R num_data, groups, flags))"

text \<open>
  \<open>fixed_samples\<close> is the pair of \<open>sample_indices\<close>, as redirected, and
  \<open>tmp_num_per_col\<close>, which both calls of \<open>FindGroups\<close> receive.
\<close>

definition fixed_samples ::
  "BinMapper option list \<Rightarrow> nat list list \<Rightarrow> real list list \<Rightarrow> int list \<Rightarrow> int \<Rightarrow> int
   \<Rightarrow> nat list \<Rightarrow> nat list list \<times> int list" where
  "fixed_samples bin_mappers sample_indices sample_values num_per_col num_sample_col
       total_sample_cnt used_features =
     fold (fix_feature bin_mappers sample_values num_per_col num_sample_col total_sample_cnt)
       used_features (sample_indices, replicate (nat num_sample_col) 0)"

definition FastFeatureBundling ::
  "'r Random \<Rightarrow> BinMapper option list \<Rightarrow> nat list list \<Rightarrow> real list list \<Rightarrow> int list \<Rightarrow> int
   \<Rightarrow> int \<Rightarrow> nat list \<Rightarrow> int \<Rightarrow> bool \<Rightarrow> error + (nat list list \<times> bool list)" where
  "FastFeatureBundling R bin_mappers sample_indices sample_values num_per_col num_sample_col
       total_sample_cnt used_features num_data is_use_gpu =
     (if num_sample_col < 0 then Inl LengthError
      else
        (let (indices, tmp_num_per_col) =
               fixed_samples bin_mappers sample_indices sample_values num_per_col
                 num_sample_col total_sample_cnt used_features
         in case FindGroups R bin_mappers used_features indices tmp_num_per_col
                   num_sample_col total_sample_cnt num_data is_use_gpu of
              Inl e \<Rightarrow> Inl e
            | Inr (group1, group_is_multi_val1) \<Rightarrow>
                (case FindGroups R bin_mappers
                        (feature_order_by_cnt num_per_col num_sample_col used_features)
                        indices tmp_num_per_col num_sample_col total_sample_cnt num_data
                        is_use_gpu of
                   Inl e \<Rightarrow> Inl e
                 | Inr (group2, group_is_multi_val2) \<Rightarrow>
                     Inr (if length group1 > length group2
                          then shuffle_groups R num_data group2 group_is_multi_val2
                          else shuffle_groups R num_data group1 group_is_multi_val1))))"

section \<open>Construct\<close>

text \<open>The fields of \<open>Config\<close> that \<open>Construct\<close> reads.\<close>

record Config =
  enable_bundle :: bool
  device_type :: string
  monotone_constraints :: "int list"
  feature_contri :: "real list"
  max_bin_by_feature :: "int list"
  max_bin :: int
  min_data_in_bin :: int
  bin_construct_sample_cnt :: int
  use_missing :: bool
  zero_as_missing :: bool

text \<open>
  \<open>std::vector::resize\<close>, and the conversion of the \<open>size_t\<close> sample count to
  \<open>data_size_t\<close>.
\<close>

definition resize :: "'a list \<Rightarrow> nat \<Rightarrow> 'a \<Rightarrow> 'a list" where
  "resize xs n d = take n xs @ replicate (n - length xs) d"

definition to_data_size_t :: "nat \<Rightarrow> int" where
  "to_data_size_t n =
     (let m = int n mod 2 ^ 32 in if m \<ge> 2 ^ 31 then m - 2 ^ 32 else m)"

definition used_features_of :: "BinMapper option list \<Rightarrow> nat list" where
  "used_features_of bin_mappers =
     filter (\<lambda>i. case bin_mappers ! i of None \<Rightarrow> False | Some m \<Rightarrow> \<not> is_trivial m)
       [0..<length bin_mappers]"

text \<open>
  The body of the inner loop for the feature \<open>cur_features[j]\<close> of group \<open>i\<close>. The state
  is \<open>cur_fidx\<close>, the caller's \<open>bin_mappers\<close> (an entry is null once released), the
  \<open>cur_bin_mappers\<close> collected for the group, and the dataset.
\<close>

definition Construct_feature ::
  "nat \<Rightarrow> nat \<times> nat \<Rightarrow> nat \<times> BinMapper option list \<times> BinMapper list \<times> Dataset
   \<Rightarrow> nat \<times> BinMapper option list \<times> BinMapper list \<times> Dataset" where
  "Construct_feature i p state =
     (let (j, real_fidx) = p;
          (cur_fidx, bin_mappers, cur_bin_mappers, ds) = state;
          m = the (bin_mappers ! real_fidx)
      in (cur_fidx + 1,
          bin_mappers[real_fidx := None],
          cur_bin_mappers @ [m],
          ds\<lparr>used_feature_map_m := (used_feature_map_m ds)[real_fidx := int cur_fidx],
             real_feature_idx_m := (real_feature_idx_m ds)[cur_fidx := int real_fidx],
             feature2group_m := (feature2group_m ds)[cur_fidx := int i],
             feature2subfeature_m := (feature2subfeature_m ds)[cur_fidx := int j],
             feature_need_push_zeros_m :=
               (if GetDefaultBin m \<noteq> GetMostFreqBin m
                then feature_need_push_zeros_m ds @ [int cur_fidx]
                else feature_need_push_zeros_m ds)\<rparr>))"

text \<open>
  The body of the outer loop for group \<open>i\<close>; the constructor of \<open>FeatureGroup\<close> is
  outside this file and is the parameter \<open>new_FeatureGroup\<close>.
\<close>

definition Construct_group ::
  "(int \<Rightarrow> bool \<Rightarrow> BinMapper list \<Rightarrow> int \<Rightarrow> FeatureGroup) \<Rightarrow> nat list list \<Rightarrow> bool list
   \<Rightarrow> nat \<Rightarrow> nat \<times> BinMapper option list \<times> Dataset \<Rightarrow> nat \<times> BinMapper option list \<times> Dataset" where
  "Construct_group new_FeatureGroup groups group_is_multi_val i state =
     (let (cur_fidx, bin_mappers, ds) = state;
          cur_features = groups ! i;
          (cur_fidx', bin_mappers', cur_bin_mappers, ds') =
             fold (Construct_feature i) (zip [0..<length cur_features] cur_features)
               (cur_fidx, bin_mappers, [], ds)
      in (cur_fidx', bin_mappers',
          ds'\<lparr>feature_groups_m := feature_groups_m ds' @
                 [new_FeatureGroup (int (length cur_features)) (group_is_multi_val ! i)
                    cur_bin_mappers (num_data_m ds')]\<rparr>))"

text \<open>
  The first part of \<open>Construct\<close>, up to the loop over the groups: the used features, the
  bundling, and the maps between real and inner feature numbers. \<open>num_features_\<close> is a
  sum of sizes and so never negative when the vectors are resized to it. The two log
  messages are left out.
\<close>

definition Construct_groups ::
  "'r Random \<Rightarrow> (int \<Rightarrow> bool \<Rightarrow> BinMapper list \<Rightarrow> int \<Rightarrow> FeatureGroup) \<Rightarrow> Dataset
   \<Rightarrow> BinMapper option list \<Rightarrow> int \<Rightarrow> nat list list \<Rightarrow> real list list \<Rightarrow> int list \<Rightarrow> int
   \<Rightarrow> nat \<Rightarrow> Config \<Rightarrow> error + Dataset" where
  "Construct_groups R new_FeatureGroup ds bin_mappers num_total_features
       sample_non_zero_indices sample_values num_per_col num_sample_col total_sample_cnt
       io_config =
     (if num_total_features \<noteq> int (length bin_mappers) then Inl Fatal
      else
        (let used_features = used_features_of bin_mappers
         in case (if enable_bundle io_config \<and> used_features \<noteq> []
                  then FastFeatureBundling R bin_mappers sample_non_zero_indices sample_values
                         num_per_col num_sample_col (to_data_size_t total_sample_cnt)
                         used_features (num_data_m ds) (device_type io_config = ''gpu'')
                  else Inr (NoGroup used_features, replicate (length used_features) False)) of
              Inl e \<Rightarrow> Inl e
            | Inr (groups, group_is_multi_val) \<Rightarrow>
                (let num_features = (\<Sum>fs \<leftarrow> groups. int (length fs));
                     ds1 = ds\<lparr>num_total_features_m := num_total_features,
                              num_features_m := num_features,
                              used_feature_map_m := replicate (nat num_total_features) (-1),
                              num_groups_m := int (length groups),
                              real_feature_idx_m :=
                                resize (real_feature_idx_m ds) (nat num_features) 0,
                              feature2group_m :=
                                resize (feature2group_m ds) (nat num_features) 0,
                              feature2subfeature_m :=
                                resize (feature2subfeature_m ds) (nat num_features) 0,
                              feature_need_push_zeros_m := []\<rparr>;
                     (cur_fidx, bin_mappers', ds2) =
                        fold (Construct_group new_FeatureGroup groups group_is_multi_val)
                          [0..<length groups] (0, bin_mappers, ds1)
                 in Inr ds2)))"

text \<open>
  The bin boundaries (\<open>uint64_t\<close> sums over the first \<open>num_groups_\<close> feature groups) and
  the first feature and the number of features of every group; \<open>group_feature_start_\<close>
  and \<open>group_feature_cnt_\<close> are appended to.
\<close>

definition bin_boundaries :: "FeatureGroup list \<Rightarrow> int list" where
  "bin_boundaries fgs =
     rev (fold (\<lambda>fg bs. ((hd bs + num_total_bin_m fg) mod 2 ^ 64) # bs) fgs [0])"

definition group_features_step :: "int list \<Rightarrow> nat \<Rightarrow> int \<times> int list \<times> int list \<Rightarrow> int \<times> int list \<times> int list" where
  "group_features_step feature2group i state =
     (let (last_group, starts, cnts) = state;
          grp = feature2group ! i
      in if grp = last_group then (last_group, starts, cnts[length cnts - 1 := last cnts + 1])
         else (grp, starts @ [int i], cnts @ [1]))"

definition Construct_boundaries :: "Dataset \<Rightarrow> Dataset" where
  "Construct_boundaries ds =
     (let (last_group, starts, cnts) =
            fold (group_features_step (feature2group_m ds)) [1..<nat (num_features_m ds)]
              (0, group_feature_start_m ds @ [0], group_feature_cnt_m ds @ [1])
      in ds\<lparr>group_bin_boundaries_m :=
               bin_boundaries (take (nat (num_groups_m ds)) (feature_groups_m ds)),
            group_feature_start_m := starts,
            group_feature_cnt_m := cnts\<rparr>)"

text \<open>
  The last part: the optional per-feature vectors, each behind its \<open>CHECK\<close>s, and the
  copied settings. \<open>InnerFeatureIndex(i)\<close> is \<open>used_feature_map_[i]\<close>.
\<close>

definition scatter_inner :: "int list \<Rightarrow> 'a list \<Rightarrow> 'a list \<Rightarrow> 'a list" where
  "scatter_inner used_feature_map src dest =
     fold (\<lambda>i d. if used_feature_map ! i \<ge> 0 then d[nat (used_feature_map ! i) := src ! i] else d)
       [0..<length used_feature_map] dest"

definition Construct_monotone :: "Config \<Rightarrow> Dataset \<Rightarrow> error + Dataset" where
  "Construct_monotone io_config ds =
     (if monotone_constraints io_config \<noteq> [] then
        (if to_size_t (num_total_features_m ds) \<noteq> length (monotone_constraints io_config)
         then Inl Fatal
         else
           (let v = scatter_inner (take (nat (num_total_features_m ds)) (used_feature_map_m ds))
                      (monotone_constraints io_config)
                      (resize (monotone_types_m ds) (to_size_t (num_features_m ds)) 0)
            in Inr (ds\<lparr>monotone_types_m := (if CheckAll v 0 then [] else v)\<rparr>)))
      else Inr ds)"

definition Construct_penalty :: "Config \<Rightarrow> Dataset \<Rightarrow> error + Dataset" where
  "Construct_penalty io_config ds =
     (if feature_contri io_config \<noteq> [] then
        (if to_size_t (num_total_features_m ds) \<noteq> length (feature_contri io_config)
         then Inl Fatal
         else
           (let v = scatter_inner (take (nat (num_total_features_m ds)) (used_feature_map_m ds))
                      (map (max 0) (feature_contri io_config))
                      (resize (feature_penalty_m ds) (to_size_t (num_features_m ds)) 0)
            in Inr (ds\<lparr>feature_penalty_m := (if CheckAll v 1 then [] else v)\<rparr>)))
      else Inr ds)"

definition Construct_max_bin :: "Config \<Rightarrow> Dataset \<Rightarrow> error + Dataset" where
  "Construct_max_bin io_config ds =
     (if max_bin_by_feature io_config \<noteq> [] then
        (if to_size_t (num_total_features_m ds) \<noteq> length (max_bin_by_feature io_config)
         then Inl Fatal
         else if \<not> Min (set (max_bin_by_feature io_config)) > 1 then Inl Fatal
         else Inr (ds\<lparr>max_bin_by_feature_m := max_bin_by_feature io_config\<rparr>))
      else Inr ds)"

definition Construct ::
  "'r Random \<Rightarrow> (int \<Rightarrow> bool \<Rightarrow> BinMapper list \<Rightarrow> int \<Rightarrow> FeatureGroup) \<Rightarrow> Dataset
   \<Rightarrow> BinMapper option list \<Rightarrow> int \<Rightarrow> real list list \<Rightarrow> nat list list \<Rightarrow> real list list
   \<Rightarrow> int list \<Rightarrow> int \<Rightarrow> nat \<Rightarrow> Config \<Rightarrow> error + Dataset" where
  "Construct R new_FeatureGroup ds bin_mappers num_total_features forced_bins
       sample_non_zero_indices sample_values num_per_col num_sample_col total_sample_cnt
       io_config =
     (case Construct_groups R new_FeatureGroup ds bin_mappers num_total_features
             sample_non_zero_indices sample_values num_per_col num_sample_col
             total_sample_cnt io_config of
        Inl e \<Rightarrow> Inl e
      | Inr ds1 \<Rightarrow>
          (case Construct_monotone io_config (Construct_boundaries ds1) of
             Inl e \<Rightarrow> Inl e
           | Inr ds2 \<Rightarrow>
               (case Construct_penalty io_config ds2 of
                  Inl e \<Rightarrow> Inl e
                | Inr ds3 \<Rightarrow>
                    (case Construct_max_bin io_config ds3 of
                       Inl e \<Rightarrow> Inl e
                     | Inr ds4 \<Rightarrow>
                         Inr (ds4\<lparr>forced_bin_bounds_m := forced_bins,
                                  max_bin_m := max_bin io_config,
                                  min_data_in_bin_m := min_data_in_bin io_config,
                                  bin_construct_sample_cnt_m :=
                                    bin_construct_sample_cnt io_config,
                                  use_missing_m := use_missing io_config,
                                  zero_as_missing_m := zero_as_missing io_config\<rparr>)))))"

section \<open>FixHistogram\<close>

text \<open>
  Modelled from the spec: the macros \<open>GET_GRAD\<close> and \<open>GET_HESS\<close> are declared in
  \<open>bin.h\<close>, which is not part of the sources; the histogram is "a flat buffer laid out as
  pairs \<open>(\<Sigma>g, \<Sigma>h)\<close>", so bin \<open>i\<close> has its gradient at \<open>2 i\<close> and its hessian at
  \<open>2 i + 1\<close>.
\<close>

definition GET_GRAD :: "nat \<Rightarrow> nat" where
  "GET_GRAD i = 2 * i"

definition GET_HESS :: "nat \<Rightarrow> nat" where
  "GET_HESS i = 2 * i + 1"

text \<open>
  \<open>double\<close>: an IEEE 754 binary64 value is a finite number, an infinity or a NaN. A finite
  number is held as the real it denotes (the two zeros are not distinguished; the source
  neither divides by a histogram entry nor looks at its sign bit). The finite doubles are
  the numbers \<open>m * 2 ^ e\<close> with \<open>\<bar>m\<bar> < 2 ^ 53\<close> and \<open>- 1074 \<le> e \<le> 971\<close>.
\<close>

datatype double = Finite (double_value: real) | PlusInfinity | MinusInfinity | NaN

text \<open>
  Rounding to nearest, ties to even, which is the rounding mode a C++ program runs in unless
  it changes it. \<open>round_even\<close> rounds to an integer; \<open>floor_log2 x\<close> is
  \<open>\<lfloor>log\<^sub>2 x\<rfloor>\<close> for \<open>x > 0\<close>; \<open>round_double\<close> rounds to 53 significant bits, and to
  a multiple of \<open>2 ^ - 1074\<close> below the normal range. A result beyond the largest finite
  double \<open>DBL_MAX\<close> overflows to an infinity (\<open>to_double\<close>).
\<close>

definition round_even :: "real \<Rightarrow> int" where
  "round_even x =
     (let f = \<lfloor>x\<rfloor>; d = x - of_int f
      in if d < 1 / 2 then f else if 1 / 2 < d then f + 1 else if even f then f else f + 1)"

definition floor_log2 :: "real \<Rightarrow> int" where
  "floor_log2 x =
     (if 1 \<le> x then bitlen \<lfloor>x\<rfloor> - 1 else - bitlen (\<lceil>1 / x\<rceil> - 1))"

definition round_double :: "real \<Rightarrow> real" where
  "round_double x =
     (if x = 0 then 0
      else (let e = max (- 1074) (floor_log2 \<bar>x\<bar> - 52)
            in of_int (round_even (x / 2 powi e)) * 2 powi e))"

definition DBL_MAX :: real where
  "DBL_MAX = (2 ^ 53 - 1) * 2 ^ 971"

definition to_double :: "real \<Rightarrow> double" where
  "to_double x =
     (let r = round_double x
      in if DBL_MAX < r then PlusInfinity else if r < - DBL_MAX then MinusInfinity else Finite r)"

text \<open>
  The subtraction of two doubles, \<open>a - b\<close> and \<open>a -= b\<close> in the source: the difference
  of two finite numbers is rounded; a NaN operand and the difference of two infinities of
  the same sign give NaN.
\<close>

fun double_minus :: "double \<Rightarrow> double \<Rightarrow> double" where
  "double_minus (Finite a) (Finite b) = to_double (a - b)"
| "double_minus NaN y = NaN"
| "double_minus x NaN = NaN"
| "double_minus PlusInfinity PlusInfinity = NaN"
| "double_minus MinusInfinity MinusInfinity = NaN"
| "double_minus PlusInfinity y = PlusInfinity"
| "double_minus MinusInfinity y = MinusInfinity"
| "double_minus (Finite a) PlusInfinity = MinusInfinity"
| "double_minus (Finite a) MinusInfinity = PlusInfinity"

text \<open>The reals that are finite doubles, and the doubles that hold one.\<close>

definition is_double :: "real \<Rightarrow> bool" where
  "is_double x \<longleftrightarrow> round_double x = x \<and> \<bar>x\<bar> \<le> DBL_MAX"

definition finite_double :: "double \<Rightarrow> bool" where
  "finite_double d = (case d of Finite x \<Rightarrow> is_double x | _ \<Rightarrow> False)"

text \<open>One iteration of the loop of \<open>FixHistogram\<close> (\<open>m\<close> is \<open>most_freq_bin\<close>).\<close>

definition FixHistogram_step :: "nat \<Rightarrow> nat \<Rightarrow> double list \<Rightarrow> double list" where
  "FixHistogram_step m i data =
     (if i \<noteq> m then
        (let d1 = data[GET_GRAD m := double_minus (data ! GET_GRAD m) (data ! GET_GRAD i)]
         in d1[GET_HESS m := double_minus (d1 ! GET_HESS m) (d1 ! GET_HESS i)])
      else data)"

definition FixHistogram ::
  "Dataset \<Rightarrow> nat \<Rightarrow> double \<Rightarrow> double \<Rightarrow> int \<Rightarrow> double list \<Rightarrow> double list" where
  "FixHistogram ds feature_idx sum_gradient sum_hessian num_data data =
     (let group = feature2group_m ds ! feature_idx;
          sub_feature = feature2subfeature_m ds ! feature_idx;
          bin_mapper = bin_mappers_m (feature_groups_m ds ! nat group) ! nat sub_feature;
          most_freq_bin = GetMostFreqBin bin_mapper
      in if most_freq_bin > 0 then
           (let nb = num_bin bin_mapper;
                m = nat most_freq_bin;
                d1 = data[GET_GRAD m := sum_gradient];
                d2 = d1[GET_HESS m := sum_hessian]
            in fold (FixHistogram_step m) [0..<nat nb] d2)
         else data)"

text \<open>\<open>Dataset::FeatureBinMapper\<close>, the lookup that \<open>FixHistogram\<close> performs inline.\<close>

definition FeatureBinMapper :: "Dataset \<Rightarrow> nat \<Rightarrow> BinMapper" where
  "FeatureBinMapper ds i =
     bin_mappers_m (feature_groups_m ds ! nat (feature2group_m ds ! i))
       ! nat (feature2subfeature_m ds ! i)"

section \<open>addFeaturesFrom\<close>

definition PushVector :: "'a list \<Rightarrow> 'a list \<Rightarrow> 'a list" where
  "PushVector dest src = dest @ src"

definition PushOffset :: "int list \<Rightarrow> int list \<Rightarrow> int \<Rightarrow> int list" where
  "PushOffset dest src offset = dest @ map (\<lambda>i. i + offset) src"

definition PushClearIfEmpty :: "'a list \<Rightarrow> nat \<Rightarrow> 'a list \<Rightarrow> nat \<Rightarrow> 'a \<Rightarrow> 'a list" where
  "PushClearIfEmpty dest dest_len src src_len deflt =
     (if dest \<noteq> [] \<and> src \<noteq> [] then PushVector dest src
      else if dest \<noteq> [] \<and> src = [] then dest @ replicate src_len deflt
      else if dest = [] \<and> src \<noteq> [] then PushVector (replicate dest_len deflt) src
      else dest)"

text \<open>
  \<open>addFeaturesFrom\<close> updates the receiver member by member; the three counters are
  increased last, so every offset below is the receiver's value before the call.
  \<open>group_bin_boundaries_\<close> holds \<open>uint64_t\<close>.
\<close>

definition addFeaturesFrom :: "Dataset \<Rightarrow> Dataset \<Rightarrow> error + Dataset" where
  "addFeaturesFrom this other =
     (if num_data_m other \<noteq> num_data_m this then Inl RuntimeError
      else Inr (this\<lparr>
        feature_names_m := PushVector (feature_names_m this) (feature_names_m other),
        feature2subfeature_m := PushVector (feature2subfeature_m this) (feature2subfeature_m other),
        group_feature_cnt_m := PushVector (group_feature_cnt_m this) (group_feature_cnt_m other),
        forced_bin_bounds_m := PushVector (forced_bin_bounds_m this) (forced_bin_bounds_m other),
        feature_groups_m := feature_groups_m this @ feature_groups_m other,
        used_feature_map_m := used_feature_map_m this @
          map (\<lambda>feature_idx. if feature_idx \<ge> 0 then feature_idx + num_features_m this else -1)
            (used_feature_map_m other),
        real_feature_idx_m :=
          PushOffset (real_feature_idx_m this) (real_feature_idx_m other) (num_total_features_m this),
        feature2group_m :=
          PushOffset (feature2group_m this) (feature2group_m other) (num_groups_m this),
        group_bin_boundaries_m := group_bin_boundaries_m this @
          map (\<lambda>i. (i + last (group_bin_boundaries_m this)) mod 2 ^ 64)
            (drop 1 (group_bin_boundaries_m other)),
        group_feature_start_m :=
          PushOffset (group_feature_start_m this) (group_feature_start_m other) (num_features_m this),
        monotone_types_m :=
          PushClearIfEmpty (monotone_types_m this) (to_size_t (num_total_features_m this))
            (monotone_types_m other) (to_size_t (num_total_features_m other)) 0,
        feature_penalty_m :=
          PushClearIfEmpty (feature_penalty_m this) (to_size_t (num_total_features_m this))
            (feature_penalty_m other) (to_size_t (num_total_features_m other)) 1,
        max_bin_by_feature_m :=
          PushClearIfEmpty (max_bin_by_feature_m this) (to_size_t (num_total_features_m this))
            (max_bin_by_feature_m other) (to_size_t (num_total_features_m other)) (-1),
        num_features_m := num_features_m this + num_features_m other,
        num_total_features_m := num_total_features_m this + num_total_features_m other,
        num_groups_m := num_groups_m this + num_groups_m other\<rparr>))"

text \<open>
  The length each optional per-feature vector has when it is populated: \<open>Construct\<close> and
  \<open>ResetConfig\<close> resize \<open>monotone_types_\<close> and \<open>feature_penalty_\<close> to \<open>num_features_\<close>
  and \<open>max_bin_by_feature_\<close> to \<open>num_total_features_\<close>, and \<open>SaveBinaryFile\<close> writes
  that many entries of each.
\<close>

definition optional_vectors_ok :: "Dataset \<Rightarrow> bool" where
  "optional_vectors_ok ds \<longleftrightarrow>
     (monotone_types_m ds = [] \<or> int (length (monotone_types_m ds)) = num_features_m ds) \<and>
     (feature_penalty_m ds = [] \<or> int (length (feature_penalty_m ds)) = num_features_m ds) \<and>
     (max_bin_by_feature_m ds = [] \<or>
        int (length (max_bin_by_feature_m ds)) = num_total_features_m ds)"

section \<open>SaveBinaryFile\<close>

text \<open>
  The file system and the logger are outside this file. A file is the sequence of values
  written to it; \<open>VirtualFileWriter::Exists\<close> is membership in the domain of the file map, and
  whether \<open>writer->Init()\<close> succeeds is the parameter \<open>Init\<close>. \<open>Log::Warning\<close> and
  \<open>Log::Info\<close> append to the log; \<open>Log::Fatal\<close> is the result \<open>Inl Fatal\<close>.
  The sizes of the metadata and feature group images are parameters (\<open>Metadata\<close> and
  \<open>FeatureGroup\<close> serialise themselves outside this file).
\<close>

datatype log_event = Warning string | Info string

datatype chunk =
    Chars string
  | SizeT nat
  | Int32 int
  | Bool bool
  | Double real
  | Int32s "int list"
  | Int8s "int list"
  | UInt64s "int list"
  | Doubles "real list"
  | MetadataImage Metadata
  | FeatureGroupImage FeatureGroup

definition binary_file_token :: string where
  "binary_file_token = ''______LightGBM_Binary_File_Token______'' @ [CHR 0x0A]"

definition size_of_header :: "Dataset \<Rightarrow> nat" where
  "size_of_header ds =
     to_size_t (4 + 4 + 4 + 4 * num_total_features_m ds + 4 + 4
        + 3 * 4 * num_features_m ds + 8 * (num_groups_m ds + 1) + 2 * 4 * num_groups_m ds
        + 1 * num_features_m ds + 8 * num_features_m ds + 4 * num_total_features_m ds
        + 4 * 3 + 1 * 2
        + (\<Sum>n \<leftarrow> take (nat (num_total_features_m ds)) (feature_names_m ds). int (length n) + 4)
        + (\<Sum>b \<leftarrow> take (nat (num_total_features_m ds)) (forced_bin_bounds_m ds).
              int (length b) * 8 + 4))"

text \<open>What is written after the token, up to the feature groups.\<close>

definition header_chunks :: "Dataset \<Rightarrow> chunk list" where
  "header_chunks ds =
     (let nf = nat (num_features_m ds); ntf = nat (num_total_features_m ds);
          ng = nat (num_groups_m ds);
          mono = (if monotone_types_m ds = [] then Assign 0 (num_features_m ds)
                  else monotone_types_m ds);
          pen = (if feature_penalty_m ds = [] then Assign 1 (num_features_m ds)
                 else feature_penalty_m ds);
          mbf = (if max_bin_by_feature_m ds = [] then Assign (-1) (num_total_features_m ds)
                 else max_bin_by_feature_m ds)
      in [SizeT (size_of_header ds),
          Int32 (num_data_m ds), Int32 (num_features_m ds), Int32 (num_total_features_m ds),
          Int32 (label_idx_m ds), Int32 (max_bin_m ds), Int32 (bin_construct_sample_cnt_m ds),
          Int32 (min_data_in_bin_m ds), Bool (use_missing_m ds), Bool (zero_as_missing_m ds),
          Int32s (take ntf (used_feature_map_m ds)),
          Int32 (num_groups_m ds),
          Int32s (take nf (real_feature_idx_m ds)),
          Int32s (take nf (feature2group_m ds)),
          Int32s (take nf (feature2subfeature_m ds)),
          UInt64s (take (nat (num_groups_m ds + 1)) (group_bin_boundaries_m ds)),
          Int32s (take ng (group_feature_start_m ds)),
          Int32s (take ng (group_feature_cnt_m ds)),
          Int8s (take nf mono), Doubles (take nf pen), Int32s (take ntf mbf)]
         @ concat (map (\<lambda>n. [Int32 (int (length n)), Chars n])
                     (take ntf (feature_names_m ds)))
         @ concat (map (\<lambda>b. Int32 (int (length b)) # map Double b)
                     (take ntf (forced_bin_bounds_m ds))))"

text \<open>
  The member vectors after the call: a logically empty vector is filled for the write and
  cleared again when it holds only the default.
\<close>

definition recompact :: "Dataset \<Rightarrow> Dataset" where
  "recompact ds =
     (let mono = (if monotone_types_m ds = [] then Assign 0 (num_features_m ds)
                  else monotone_types_m ds);
          pen = (if feature_penalty_m ds = [] then Assign 1 (num_features_m ds)
                 else feature_penalty_m ds);
          mbf = (if max_bin_by_feature_m ds = [] then Assign (-1) (num_total_features_m ds)
                 else max_bin_by_feature_m ds)
      in ds\<lparr>monotone_types_m := (if CheckAll mono 0 then [] else mono),
            feature_penalty_m := (if CheckAll pen 1 then [] else pen),
            max_bin_by_feature_m := (if CheckAll mbf (-1) then [] else mbf)\<rparr>)"

definition SaveBinaryFile ::
  "(Metadata \<Rightarrow> nat) \<Rightarrow> (FeatureGroup \<Rightarrow> nat) \<Rightarrow> (string \<Rightarrow> bool) \<Rightarrow>
   Dataset \<Rightarrow> (string \<rightharpoonup> chunk list) \<Rightarrow> string option \<Rightarrow>
   error + (Dataset \<times> (string \<rightharpoonup> chunk list) \<times> log_event list)" where
  "SaveBinaryFile metadata_size feature_size Init ds files bin_filename =
     (if bin_filename \<noteq> None \<and> the bin_filename = data_filename_m ds then
        Inr (ds, files, [Warning (''Bianry file '' @ the bin_filename @ '' already exists'')])
      else
        (let name = (if bin_filename = None \<or> bin_filename = Some []
                     then data_filename_m ds @ ''.bin'' else the bin_filename)
         in if files name \<noteq> None then
              Inr (ds, files, [Warning (''File '' @ name @ '' exists, cannot save binary to it'')])
            else if \<not> Init name then Inl Fatal
            else
              Inr (recompact ds,
                   files(name \<mapsto>
                     Chars binary_file_token # header_chunks ds
                     @ [SizeT (metadata_size (metadata_m ds)), MetadataImage (metadata_m ds)]
                     @ concat (map (\<lambda>fg. [SizeT (feature_size fg), FeatureGroupImage fg])
                                (take (nat (num_groups_m ds)) (feature_groups_m ds)))),
                   [Info (''Saving data to binary file '' @ name)])))"

section \<open>ConstructHistograms\<close>

text \<open>
  The caller's buffers: \<open>hist_data\<close> (a null pointer is \<open>None\<close>) and the two scratch
  buffers of the subset path. The dataset's own scratch buffer \<open>hist_buf_\<close> is a member
  (\<open>mutable\<close> in the source). Parallel loops write disjoint slices and are run in index
  order. The histogram routine of the bin storage is outside this file and is the parameter
  \<open>bin_ConstructHistogram\<close>: for a group, the optional row indices, the row range, the
  gradients, the optional hessians (absent in the constant-hessian overload) and the
  zeroed slice, it returns the filled slice. \<open>num_threads\<close> is what
  \<open>omp_get_num_threads\<close> returns. For a multi-valued group the source divides by
  \<open>n_part\<close> and by \<open>n_block\<close>, which are \<open>0\<close> when there are no rows or the group has
  at most one bin.
\<close>

record HistBuffers =
  hist_data :: "real list option"
  ordered_gradients :: "real list"
  ordered_hessians :: "real list"

type_synonym bin_histogram =
  "nat \<Rightarrow> nat list option \<Rightarrow> int \<Rightarrow> int \<Rightarrow> real list \<Rightarrow> real list option \<Rightarrow> real list \<Rightarrow> real list"

definition write_slice :: "real list \<Rightarrow> nat \<Rightarrow> real list \<Rightarrow> real list" where
  "write_slice buf off xs = take off buf @ xs @ drop (off + length xs) buf"

definition read_slice :: "real list \<Rightarrow> nat \<Rightarrow> nat \<Rightarrow> real list" where
  "read_slice buf off n = take n (drop off buf)"

definition is_group_used :: "Dataset \<Rightarrow> int list \<Rightarrow> nat \<Rightarrow> bool" where
  "is_group_used ds is_feature_used grp =
     (\<exists>j \<in> set [0..<nat (group_feature_cnt_m ds ! grp)].
        is_feature_used ! nat (group_feature_start_m ds ! grp + int j) \<noteq> 0)"

text \<open>The subset reorder: \<open>ordered[i] = src[data_indices[i]]\<close> for \<open>i < num_data\<close>.\<close>

definition reorder :: "real list \<Rightarrow> real list \<Rightarrow> nat list \<Rightarrow> int \<Rightarrow> real list" where
  "reorder ordered src data_indices num_data =
     fold (\<lambda>i b. b[i := src ! (data_indices ! i)]) [0..<nat num_data] ordered"

text \<open>The "fixed hessian" loop: every hessian slot of the slice is multiplied by \<open>h0\<close>.\<close>

definition scale_hess :: "real \<Rightarrow> nat list \<Rightarrow> real list \<Rightarrow> real list" where
  "scale_hess h0 bins slice = fold (\<lambda>i d. d[GET_HESS i := d ! GET_HESS i * h0]) bins slice"

definition dense_group ::
  "bin_histogram \<Rightarrow> Dataset \<Rightarrow> nat list option \<Rightarrow> int \<Rightarrow> real list \<Rightarrow> real list \<Rightarrow> real list
   \<Rightarrow> bool \<Rightarrow> nat \<Rightarrow> real list \<Rightarrow> real list" where
  "dense_group bin_ConstructHistogram ds indices num_data grad hess hessians
       is_constant_hessian grp hist =
     (let off = nat (group_bin_boundaries_m ds ! grp * 2);
          nb = nat (num_total_bin_m (feature_groups_m ds ! grp));
          zeroed = replicate (2 * nb) 0;
          built = bin_ConstructHistogram grp indices 0 num_data grad
                    (if is_constant_hessian then None else Some hess) zeroed
      in write_slice hist off
           (if is_constant_hessian then scale_hess (hessians ! 0) [0..<nb] built else built))"

text \<open>
  The merge of the per-thread slices of \<open>hist_buf_\<close> into the group's slice, bin \<open>0\<close>
  left out.
\<close>

definition merge_block ::
  "real list \<Rightarrow> nat \<Rightarrow> nat \<Rightarrow> nat list \<Rightarrow> real list \<Rightarrow> real list" where
  "merge_block hist_buf nb n_part bins slice =
     fold (\<lambda>tid d.
        fold (\<lambda>i d'. (d'[GET_GRAD i := d' ! GET_GRAD i + hist_buf ! (tid * nb * 2 + GET_GRAD i)])
                        [GET_HESS i := d' ! GET_HESS i + hist_buf ! (tid * nb * 2 + GET_HESS i)])
             bins d)
       [0..<n_part] slice"

definition sparse_group ::
  "bin_histogram \<Rightarrow> int \<Rightarrow> Dataset \<Rightarrow> nat list option \<Rightarrow> int \<Rightarrow> real list \<Rightarrow> real list
   \<Rightarrow> real list \<Rightarrow> bool \<Rightarrow> nat \<Rightarrow> real list \<times> real list
   \<Rightarrow> error + (real list \<times> real list)" where
  "sparse_group bin_ConstructHistogram num_threads ds indices num_data grad hess hessians
       is_constant_hessian grp bufs =
     (let (hist, hist_buf) = bufs;
          nb = nat (num_total_bin_m (feature_groups_m ds ! grp));
          hist_buf1 = (if 2 * int nb * num_threads > int (length hist_buf)
                       then take (nat (2 * int nb * num_threads)) hist_buf
                            @ replicate (nat (2 * int nb * num_threads) - length hist_buf) 0
                       else hist_buf);
          n_part = min num_threads ((num_data + 512 - 1) sdiv 512);
          n_block = min num_threads ((int nb + 512 - 2) sdiv 512)
      in if n_part = 0 \<or> n_block = 0 then Inl DivideByZero
         else
          (let step = (num_data + n_part - 1) sdiv n_part;
               hist_buf2 = fold (\<lambda>tid b.
                        let start = int tid * step; endp = min (start + step) num_data
                        in write_slice b (tid * nb * 2)
                             (bin_ConstructHistogram grp indices start endp grad
                                (if is_constant_hessian then None else Some hess)
                                (replicate (2 * nb) 0)))
                      [0..<nat n_part] hist_buf1;
               off = nat (group_bin_boundaries_m ds ! grp * 2);
               num_bin_per_threads = (int nb + n_block - 2) sdiv n_block;
               merged = fold (\<lambda>t d.
                     let start = int t * num_bin_per_threads + 1;
                         endp = min (start + num_bin_per_threads) (int nb);
                         bins = [nat start..<nat endp];
                         d1 = merge_block hist_buf2 nb (nat n_part) bins d
                     in if is_constant_hessian then scale_hess (hessians ! 0) bins d1 else d1)
                   [0..<nat n_block] (replicate (2 * nb) 0)
           in Inr (write_slice hist off merged, hist_buf2)))"

definition ConstructHistograms ::
  "bin_histogram \<Rightarrow> int \<Rightarrow> Dataset \<Rightarrow> int list \<Rightarrow> nat list option \<Rightarrow> int \<Rightarrow> int \<Rightarrow>
   real list \<Rightarrow> real list \<Rightarrow> bool \<Rightarrow> HistBuffers \<Rightarrow> error + (Dataset \<times> HistBuffers)" where
  "ConstructHistograms bin_ConstructHistogram num_threads ds is_feature_used data_indices
       num_data leaf_idx gradients hessians is_constant_hessian bufs =
     (if leaf_idx < 0 \<or> num_data < 0 \<or> hist_data bufs = None then Inr (ds, bufs)
      else
        (let groups = [0..<nat (num_groups_m ds)];
             used_dense_group = filter (\<lambda>g. is_group_used ds is_feature_used g
                                  \<and> \<not> is_multi_val_m (feature_groups_m ds ! g)) groups;
             used_sparse_group = filter (\<lambda>g. is_group_used ds is_feature_used g
                                  \<and> is_multi_val_m (feature_groups_m ds ! g)) groups;
             subset = (data_indices \<noteq> None \<and> num_data < num_data_m ds);
             og = (if subset then reorder (ordered_gradients bufs) gradients (the data_indices) num_data
                   else ordered_gradients bufs);
             oh = (if subset \<and> \<not> is_constant_hessian
                   then reorder (ordered_hessians bufs) hessians (the data_indices) num_data
                   else ordered_hessians bufs);
             ptr_ordered_grad = (if subset then og else gradients);
             ptr_ordered_hess = (if subset then oh else hessians);
             indices = (if subset then data_indices else None);
             hist1 = fold (dense_group bin_ConstructHistogram ds indices num_data
                             ptr_ordered_grad ptr_ordered_hess hessians is_constant_hessian)
                       used_dense_group (the (hist_data bufs))
         in case fold_err (sparse_group bin_ConstructHistogram num_threads ds indices num_data
                        ptr_ordered_grad ptr_ordered_hess hessians is_constant_hessian)
                  used_sparse_group (hist1, hist_buf_m ds) of
              Inl e \<Rightarrow> Inl e
            | Inr (hist2, hist_buf) \<Rightarrow>
                Inr (ds\<lparr>hist_buf_m := hist_buf\<rparr>,
                     \<lparr>hist_data = Some hist2, ordered_gradients = og, ordered_hessians = oh\<rparr>)))"

section \<open>Invariants of FindGroups\<close>

text \<open>Every per-group vector has one entry per group; so have the flags of the second round.\<close>

definition groups_aligned :: "'r FindGroups_state \<Rightarrow> bool" where
  "groups_aligned st \<longleftrightarrow>
     length (conflict_marks st) = length (features_in_group st) \<and>
     length (group_used_row_cnt st) = length (features_in_group st) \<and>
     length (group_total_data_cnt st) = length (features_in_group st) \<and>
     length (group_num_bin st) = length (features_in_group st)"

definition flags_aligned :: "'r FindGroups_state \<Rightarrow> bool" where
  "flags_aligned st \<longleftrightarrow>
     length (multi_val_group st) = length (features_in_group st) \<and>
     length (forced_single_val_group st) = length (features_in_group st)"

text \<open>The count computed in an iteration of the second search loop.\<close>

definition search2_cnt :: "int \<Rightarrow> 'r FindGroups_state \<Rightarrow> bool \<Rightarrow> int \<Rightarrow> nat list \<Rightarrow> nat \<Rightarrow> int" where
  "search2_cnt S st filtered nz indices gid =
     (if filtered then 0
      else GetConfilctCount (conflict_marks st ! gid) indices nz
             (if forced_single_val_group st ! gid
              then min S (single_val_max_conflict_cnt S - group_total_data_cnt st ! gid
                            + group_used_row_cnt st ! gid)
              else S)
             max_concurrent_feature_per_group)"

text \<open>
  The pair \<open>(best_gid, best_conflict_cnt)\<close> of the second search loop is either its initial
  value or a searched group with a count that is not negative.
\<close>

definition best_ok :: "int \<Rightarrow> nat list \<Rightarrow> int \<times> int \<Rightarrow> bool" where
  "best_ok S sg best \<longleftrightarrow>
     (fst best = -1 \<and> snd best = S + 1) \<or> (\<exists>gid \<in> set sg. fst best = int gid \<and> 0 \<le> snd best)"

text \<open>
  The conflicts of a group are \<open>group_total_data_cnt - group_used_row_cnt\<close>. After the
  first round every group has at most \<open>single_val_max_conflict_cnt\<close> of them; in the
  second round every group that is not multi-valued has. A group exists only if
  \<open>total_sample_cnt\<close> is not negative.
\<close>

definition conflicts_bounded :: "int \<Rightarrow> 'r FindGroups_state \<Rightarrow> bool" where
  "conflicts_bounded S st \<longleftrightarrow>
     (\<forall>gid < length (features_in_group st). \<not> multi_val_group st ! gid \<longrightarrow>
        group_total_data_cnt st ! gid - group_used_row_cnt st ! gid
          \<le> single_val_max_conflict_cnt S)"

definition round1_inv :: "int \<Rightarrow> 'r FindGroups_state \<Rightarrow> bool" where
  "round1_inv S st \<longleftrightarrow>
     groups_aligned st \<and> multi_val_group st = [] \<and> forced_single_val_group st = [] \<and>
     (\<forall>gid < length (features_in_group st).
        group_total_data_cnt st ! gid - group_used_row_cnt st ! gid
          \<le> single_val_max_conflict_cnt S) \<and>
     (features_in_group st = [] \<or> 0 \<le> S)"

definition round2_inv :: "int \<Rightarrow> 'r FindGroups_state \<Rightarrow> bool" where
  "round2_inv S st \<longleftrightarrow>
     groups_aligned st \<and> flags_aligned st \<and> conflicts_bounded S st \<and>
     (features_in_group st = [] \<or> 0 \<le> S)"

text \<open>
  For bin mappers with at least one bin, \<open>group_num_bin\<close> is never negative, and the
  features of every group come from \<open>find_order\<close>.
\<close>

definition bins_inv :: "nat list \<Rightarrow> 'r FindGroups_state \<Rightarrow> bool" where
  "bins_inv order st \<longleftrightarrow>
     groups_aligned st \<and>
     (\<forall>gid < length (features_in_group st). 0 \<le> group_num_bin st ! gid) \<and>
     (\<forall>gid < length (features_in_group st). set (features_in_group st ! gid) \<subseteq> set order)"

text \<open>The features placed so far, over all groups.\<close>

definition bundled :: "'r FindGroups_state \<Rightarrow> nat multiset" where
  "bundled st = mset (concat (features_in_group st))"

text \<open>
  The sample rows the bundler reads for a feature: the first \<open>num_per_col[fidx]\<close> entries
  of \<open>sample_indices[fidx]\<close>, and none for a filtered feature. \<open>samples_ok\<close> is what
  sampling guarantees of them: the count is the number of entries, no row occurs twice, and
  every row is below \<open>total_sample_cnt\<close>.
\<close>

definition sample_rows :: "nat list list \<Rightarrow> int list \<Rightarrow> int \<Rightarrow> nat \<Rightarrow> nat list" where
  "sample_rows sample_indices num_per_col num_sample_col fidx =
     (if is_filtered_feature num_sample_col fidx then []
      else take (nat (num_per_col ! fidx)) (sample_indices ! fidx))"

definition samples_ok :: "nat list list \<Rightarrow> int list \<Rightarrow> int \<Rightarrow> int \<Rightarrow> nat \<Rightarrow> bool" where
  "samples_ok sample_indices num_per_col num_sample_col total_sample_cnt fidx \<longleftrightarrow>
     is_filtered_feature num_sample_col fidx \<or>
     (0 \<le> num_per_col ! fidx \<and> nat (num_per_col ! fidx) \<le> length (sample_indices ! fidx) \<and>
      distinct (sample_rows sample_indices num_per_col num_sample_col fidx) \<and>
      (\<forall>r \<in> set (sample_rows sample_indices num_per_col num_sample_col fidx).
         int r < total_sample_cnt))"

text \<open>
  \<open>touch_cnt\<close>: how many features of a group are non-zero on the sample row \<open>r\<close>. The
  conflicts of the group are the sum of \<open>touch_cnt - 1\<close> over the rows that are touched:
  every row counts once for each feature on it beyond the first.
\<close>

definition touch_cnt :: "nat list list \<Rightarrow> int list \<Rightarrow> int \<Rightarrow> nat list \<Rightarrow> nat \<Rightarrow> nat" where
  "touch_cnt sample_indices num_per_col num_sample_col grp r =
     length (filter (\<lambda>f. r \<in> set (sample_rows sample_indices num_per_col num_sample_col f)) grp)"

text \<open>
  What the vectors of a group hold: the mark of a row is the number of features on it, which
  stays within \<open>max_concurrent_feature_per_group\<close> and so never wraps;
  \<open>group_total_data_cnt\<close> is the number of touches and \<open>group_used_row_cnt\<close> the number of
  rows touched.
\<close>

definition group_ok ::
  "nat list list \<Rightarrow> int list \<Rightarrow> int \<Rightarrow> int \<Rightarrow> nat list \<Rightarrow> nat list \<Rightarrow> int \<Rightarrow> int \<Rightarrow> bool" where
  "group_ok si npc nsc S grp marks total_cnt used_cnt \<longleftrightarrow>
     length marks = nat S \<and>
     (\<forall>r < nat S. marks ! r = touch_cnt si npc nsc grp r \<and> marks ! r \<le> 64) \<and>
     total_cnt = int (\<Sum>r < nat S. touch_cnt si npc nsc grp r) \<and>
     used_cnt = int (card {r. r < nat S \<and> 0 < touch_cnt si npc nsc grp r})"

definition marks_inv ::
  "nat list list \<Rightarrow> int list \<Rightarrow> int \<Rightarrow> int \<Rightarrow> nat list \<Rightarrow> 'r FindGroups_state \<Rightarrow> bool" where
  "marks_inv si npc nsc S order st \<longleftrightarrow>
     groups_aligned st \<and>
     (\<forall>gid < length (features_in_group st).
        set (features_in_group st ! gid) \<subseteq> set order \<and>
        group_ok si npc nsc S (features_in_group st ! gid) (conflict_marks st ! gid)
          (group_total_data_cnt st ! gid) (group_used_row_cnt st ! gid))"

section \<open>Invariants of Construct\<close>

text \<open>
  What one feature does to \<open>cur_fidx\<close> and the two maps, and the part of the loop state
  that consists of them.
\<close>

definition assign_maps :: "nat \<Rightarrow> nat \<times> int list \<times> int list \<Rightarrow> nat \<times> int list \<times> int list" where
  "assign_maps f state =
     (let (c, u, r) = state in (c + 1, u[f := int c], r[c := int f]))"

definition maps_of :: "nat \<times> Dataset \<Rightarrow> nat \<times> int list \<times> int list" where
  "maps_of p = (fst p, used_feature_map_m (snd p), real_feature_idx_m (snd p))"

section \<open>Example data\<close>

text \<open>A dataset of one feature with three bins, the second of them the most frequent.\<close>

definition example_mapper :: BinMapper where
  "example_mapper = \<lparr>num_bin = 3, GetDefaultBin = 0, GetMostFreqBin = 1, is_trivial = False,
     sparse_rate = 0, ValueToBin = (\<lambda>v. if v \<le> 0 then 0 else if v \<le> 1 then 1 else 2)\<rparr>"

definition example_dataset :: Dataset where
  "example_dataset = \<lparr>data_filename_m = ''noname'', num_data_m = 8, num_features_m = 1,
     num_total_features_m = 1, num_groups_m = 1, label_idx_m = 0,
     feature_names_m = [''Column_0''],
     feature_groups_m = [\<lparr>num_feature_m = 1, is_multi_val_m = False,
        bin_mappers_m = [example_mapper], num_total_bin_m = 3\<rparr>],
     used_feature_map_m = [0], real_feature_idx_m = [0], feature2group_m = [0],
     feature2subfeature_m = [0], group_bin_boundaries_m = [0, 3], group_feature_start_m = [0],
     group_feature_cnt_m = [1], feature_need_push_zeros_m = [0], monotone_types_m = [],
     feature_penalty_m = [], max_bin_by_feature_m = [], forced_bin_bounds_m = [[]],
     max_bin_m = 255, min_data_in_bin_m = 3, bin_construct_sample_cnt_m = 200000,
     use_missing_m = True, zero_as_missing_m = False,
     metadata_m = \<lparr>label = [0, 1, 0, 1, 0, 1, 0, 1], weights = [], init_score = [],
        query_boundaries = []\<rparr>,
     is_finish_load_m = True, hist_buf_m = []\<rparr>"

text \<open>
  Two datasets with a trivial second feature (two input features, one used), without and
  with a monotone constraint on the used one.
\<close>

definition sparse_dataset :: Dataset where
  "sparse_dataset = example_dataset\<lparr>num_total_features_m := 2,
     feature_names_m := [''Column_0'', ''Column_1''], used_feature_map_m := [0, -1],
     forced_bin_bounds_m := [[], []]\<rparr>"

definition monotone_dataset :: Dataset where
  "monotone_dataset = sparse_dataset\<lparr>monotone_types_m := [1]\<rparr>"

text \<open>An empty file system, sizes for the images, buffers and a bin storage for the example.\<close>

definition no_files :: "string \<rightharpoonup> chunk list" where
  "no_files = Map.empty"

definition Init_succeeds :: "string \<Rightarrow> bool" where
  "Init_succeeds name = True"

definition example_metadata_size :: "Metadata \<Rightarrow> nat" where
  "example_metadata_size md = 8 * length (label md)"

definition example_feature_size :: "FeatureGroup \<Rightarrow> nat" where
  "example_feature_size fg = nat (num_total_bin_m fg)"

definition example_buffers :: HistBuffers where
  "example_buffers = \<lparr>hist_data = Some [0, 0, 0, 0, 0, 0], ordered_gradients = [0, 0, 0, 0, 0, 0, 0, 0],
     ordered_hessians = [0, 0, 0, 0, 0, 0, 0, 0]\<rparr>"

definition example_histogram :: bin_histogram where
  "example_histogram grp indices start endp grad hess out = map (\<lambda>x. x + 1) out"

text \<open>
  A generator for the examples: its state counts the draws, a sample is the first
  positions, a draw from a range is the count reduced into the range.
\<close>

definition counter_Random :: "nat Random" where
  "counter_Random =
     \<lparr>Random_seed = (\<lambda>seed. nat seed),
      Sample = (\<lambda>r N K. ([0..<nat (min N K)], Suc r)),
      NextShort = (\<lambda>r lower upper.
         (if lower < upper then lower + int r mod (upper - lower) else lower, Suc r))\<rparr>"

text \<open>
  Three features with two bins each over four sample rows; the first two are non-zero on
  the same rows.
\<close>

definition two_bin_mapper :: BinMapper where
  "two_bin_mapper = \<lparr>num_bin = 2, GetDefaultBin = 0, GetMostFreqBin = 0, is_trivial = False,
     sparse_rate = 0, ValueToBin = (\<lambda>v. if v \<le> 0 then 0 else 1)\<rparr>"

definition example_mappers :: "BinMapper option list" where
  "example_mappers = [Some two_bin_mapper, Some two_bin_mapper, Some two_bin_mapper]"

definition example_indices :: "nat list list" where
  "example_indices = [[0, 1], [0, 1], [2]]"

text \<open>The state before the third feature of the example above is placed.\<close>

definition multi_val_state :: "nat FindGroups_state" where
  "multi_val_state = \<lparr>features_in_group = [[0, 1]], conflict_marks = [[2, 2, 0, 0]],
        group_used_row_cnt = [2], group_total_data_cnt = [4],
        group_num_bin = [3], multi_val_group = [True],
        forced_single_val_group = [False], rand = 7\<rparr>"

text \<open>
  Two features that are both non-zero on sample row \<open>1\<close>, for a run over \<open>10000\<close>
  sample rows, where one conflict is allowed.
\<close>

definition shared_indices :: "nat list list" where
  "shared_indices = [[0, 1], [1, 2]]"

text \<open>
  Four features for a run with the GPU bin limit: two of 200 bins, which cannot share a
  group, and two of 2 bins, each on the sample row of one of the wide ones.
\<close>

definition wide_mapper :: BinMapper where
  "wide_mapper = \<lparr>num_bin = 200, GetDefaultBin = 0, GetMostFreqBin = 0, is_trivial = False,
     sparse_rate = 0, ValueToBin = (\<lambda>v. if v \<le> 0 then 0 else 1)\<rparr>"

definition wide_mappers :: "BinMapper option list" where
  "wide_mappers = [Some wide_mapper, Some two_bin_mapper, Some wide_mapper, Some two_bin_mapper]"

definition wide_indices :: "nat list list" where
  "wide_indices = [[0], [0], [3], [3]]"

definition wide_values :: "real list list" where
  "wide_values = [[1], [1], [1], [1]]"

text \<open>A second generator that differs from the first in every seed but \<open>4\<close>.\<close>

definition reseeded_Random :: "nat Random" where
  "reseeded_Random = counter_Random\<lparr>Random_seed := (\<lambda>seed. if seed = 4 then 4 else nat seed + 17)\<rparr>"

text \<open>
  A dataset as its constructor leaves it, six input features of which one is trivial and
  one has no mapper, and a configuration that bundles for the GPU.
\<close>

definition fresh_dataset :: Dataset where
  "fresh_dataset = \<lparr>data_filename_m = ''noname'', num_data_m = 4, num_features_m = 0,
     num_total_features_m = 0, num_groups_m = 0, label_idx_m = 0, feature_names_m = [],
     feature_groups_m = [], used_feature_map_m = [], real_feature_idx_m = [],
     feature2group_m = [], feature2subfeature_m = [], group_bin_boundaries_m = [0],
     group_feature_start_m = [], group_feature_cnt_m = [], feature_need_push_zeros_m = [],
     monotone_types_m = [], feature_penalty_m = [], max_bin_by_feature_m = [],
     forced_bin_bounds_m = [], max_bin_m = 0, min_data_in_bin_m = 0,
     bin_construct_sample_cnt_m = 0, use_missing_m = False, zero_as_missing_m = False,
     metadata_m = \<lparr>label = [0, 0, 0, 0], weights = [], init_score = [], query_boundaries = []\<rparr>,
     is_finish_load_m = False, hist_buf_m = []\<rparr>"

definition six_mappers :: "BinMapper option list" where
  "six_mappers = [Some wide_mapper, Some two_bin_mapper, Some (two_bin_mapper\<lparr>is_trivial := True\<rparr>),
     None, Some wide_mapper, Some two_bin_mapper]"

definition six_indices :: "nat list list" where
  "six_indices = [[0], [0], [], [], [3], [3]]"

definition six_values :: "real list list" where
  "six_values = [[1], [1], [], [], [1], [1]]"

definition gpu_config :: Config where
  "gpu_config = \<lparr>enable_bundle = True, device_type = ''gpu'', monotone_constraints = [],
     feature_contri = [], max_bin_by_feature = [], max_bin = 255, min_data_in_bin = 3,
     bin_construct_sample_cnt = 200000, use_missing = True, zero_as_missing = False\<rparr>"

definition example_FeatureGroup :: "int \<Rightarrow> bool \<Rightarrow> BinMapper list \<Rightarrow> int \<Rightarrow> FeatureGroup" where
  "example_FeatureGroup n multi mappers num_data =
     \<lparr>num_feature_m = n, is_multi_val_m = multi, bin_mappers_m = mappers,
      num_total_bin_m = 1 + (\<Sum>m \<leftarrow> mappers. num_bin m - 1)\<rparr>"

text \<open>
  Four features for a run with the GPU bin limit in which the order of the features
  matters: two of 30 bins and two of 200 bins, with 1, 2, 3 and 4 sample rows; the first
  and the last share row \<open>6\<close>.
\<close>

definition bin30_mapper :: BinMapper where
  "bin30_mapper = \<lparr>num_bin = 30, GetDefaultBin = 0, GetMostFreqBin = 0, is_trivial = False,
     sparse_rate = 0, ValueToBin = (\<lambda>v. if v \<le> 0 then 0 else 1)\<rparr>"

definition order_mappers :: "BinMapper option list" where
  "order_mappers = [Some bin30_mapper, Some bin30_mapper, Some wide_mapper, Some wide_mapper]"

definition order_indices :: "nat list list" where
  "order_indices = [[6], [1, 2], [3, 4, 5], [6, 7, 8, 9]]"

definition order_values :: "real list list" where
  "order_values = [[1], [1, 1], [1, 1, 1], [1, 1, 1, 1]]"

text \<open>
  A histogram of three bins whose entries are the doubles nearest to \<open>0.2\<close>, \<open>0\<close> and
  \<open>0.3\<close>, for leaf totals of \<open>0.1\<close>.
\<close>

definition rounding_histogram :: "double list" where
  "rounding_histogram =
     [to_double (1 / 5), to_double (1 / 5), Finite 0, Finite 0, to_double (3 / 10), to_double (3 / 10)]"

definition rounding_total :: double where
  "rounding_total = to_double (1 / 10)"

section \<open>Properties of FixHistogram\<close>

text \<open>The error of one rounding.\<close>

lemma round_even_error: "\<bar>real_of_int (round_even x) - x\<bar> \<le> 1 / 2"
proof -
  have "real_of_int \<lfloor>x\<rfloor> \<le> x" "x < real_of_int \<lfloor>x\<rfloor> + 1" by linarith+
  then show ?thesis by (auto simp: round_even_def Let_def)
qed

lemma round_even_of_int: "round_even (real_of_int k) = k"
  by (simp add: round_even_def)

lemma floor_log2_bounds:
  assumes "0 < x"
  shows "2 powi (floor_log2 x) \<le> x \<and> x < 2 powi (floor_log2 x + 1)"
proof (cases "1 \<le> x")
  case True
  define n where "n = \<lfloor>x\<rfloor>"
  have n: "0 < n" using True by (simp add: n_def)
  have nx: "real_of_int n \<le> x" "x < real_of_int n + 1" unfolding n_def by linarith+
  have L: "floor_log2 x = bitlen n - 1" using True n by (simp add: floor_log2_def n_def)
  have k: "0 < bitlen n" using n bitlen_eq_zero_iff [of n] bitlen_nonneg [of n] by linarith
  from bitlen_bounds [OF n] have b: "2 ^ nat (bitlen n - 1) \<le> n" "n < 2 ^ nat (bitlen n)"
    by simp_all
  have lo: "(2::real) powi (bitlen n - 1) \<le> x"
  proof -
    have "(2::real) powi (bitlen n - 1) = 2 ^ nat (bitlen n - 1)"
      using k by (simp add: power_int_def)
    also have "\<dots> = real_of_int (2 ^ nat (bitlen n - 1))" by simp
    also have "\<dots> \<le> real_of_int n" using b(1) by (simp only: of_int_le_iff)
    finally show ?thesis using nx(1) by linarith
  qed
  have hi: "x < (2::real) powi (bitlen n - 1 + 1)"
  proof -
    have "n + 1 \<le> 2 ^ nat (bitlen n)" using b(2) by simp
    then have "real_of_int (n + 1) \<le> real_of_int (2 ^ nat (bitlen n))"
      by (simp only: of_int_le_iff)
    then have "real_of_int n + 1 \<le> 2 ^ nat (bitlen n)" by simp
    moreover have "(2::real) powi (bitlen n - 1 + 1) = 2 ^ nat (bitlen n)"
      using k by (simp add: power_int_def)
    ultimately show ?thesis using nx(2) by linarith
  qed
  show ?thesis unfolding L using lo hi by simp
next
  case False
  define y where "y = 1 / x"
  define n where "n = \<lceil>y\<rceil> - 1"
  have x1: "x < 1" using False by simp
  have y1: "1 < y" using assms x1 by (simp add: y_def)
  have n: "0 < n" using y1 unfolding n_def by linarith
  have ny: "real_of_int n < y" "y \<le> real_of_int n + 1" unfolding n_def by linarith+
  have L: "floor_log2 x = - bitlen n" using False by (simp add: floor_log2_def n_def y_def)
  have k: "0 < bitlen n" using n bitlen_eq_zero_iff [of n] bitlen_nonneg [of n] by linarith
  from bitlen_bounds [OF n] have b: "2 ^ nat (bitlen n - 1) \<le> n" "n < 2 ^ nat (bitlen n)"
    by simp_all
  have xy: "x = 1 / y" using assms by (simp add: y_def)
  have lo: "(2::real) powi (- bitlen n) \<le> x"
  proof -
    have "n + 1 \<le> 2 ^ nat (bitlen n)" using b(2) by simp
    then have "real_of_int (n + 1) \<le> real_of_int (2 ^ nat (bitlen n))"
      by (simp only: of_int_le_iff)
    then have "y \<le> 2 ^ nat (bitlen n)" using ny(2) by simp
    then have "1 / 2 ^ nat (bitlen n) \<le> 1 / y" using y1 by (simp add: frac_le)
    moreover have "(2::real) powi (- bitlen n) = 1 / 2 ^ nat (bitlen n)"
      using k by (simp add: power_int_def field_simps)
    ultimately show ?thesis using xy by simp
  qed
  have hi: "x < (2::real) powi (- bitlen n + 1)"
  proof -
    have "real_of_int (2 ^ nat (bitlen n - 1)) \<le> real_of_int n"
      using b(1) by (simp only: of_int_le_iff)
    then have "(2::real) ^ nat (bitlen n - 1) \<le> real_of_int n" by simp
    then have "2 ^ nat (bitlen n - 1) < y" using ny(1) by linarith
    then have "1 / y < 1 / 2 ^ nat (bitlen n - 1)" by (simp add: frac_less2)
    moreover have "(2::real) powi (- bitlen n + 1) = 1 / 2 ^ nat (bitlen n - 1)"
    proof -
      have "- bitlen n + 1 = - (bitlen n - 1)" by simp
      then have "(2::real) powi (- bitlen n + 1) = 2 powi (- (bitlen n - 1))" by simp
      also have "\<dots> = inverse (2 powi (bitlen n - 1))" by (rule power_int_minus)
      also have "\<dots> = 1 / 2 ^ nat (bitlen n - 1)"
        using k by (simp add: power_int_def field_simps)
      finally show ?thesis .
    qed
    ultimately show ?thesis using xy by simp
  qed
  show ?thesis unfolding L using lo hi by simp
qed

lemma round_double_grid: "round_double x * 2 ^ 1074 \<in> \<int>"
proof (cases "x = 0")
  case True
  then show ?thesis by (simp add: round_double_def)
next
  case False
  define e where "e = max (- 1074) (floor_log2 \<bar>x\<bar> - 52)"
  define n where "n = round_even (x / 2 powi e)"
  have r: "round_double x = of_int n * 2 powi e"
    using False by (simp add: round_double_def Let_def e_def n_def)
  have e: "0 \<le> e + 1074" by (simp add: e_def)
  have "(2::real) powi e * 2 ^ 1074 = 2 powi e * 2 powi 1074" by simp
  also have "\<dots> = 2 powi (e + 1074)" by (simp add: power_int_add)
  also have "\<dots> = 2 ^ nat (e + 1074)" using e by (simp add: power_int_def)
  finally have "round_double x * 2 ^ 1074 = of_int (n * 2 ^ nat (e + 1074))"
    unfolding r by simp
  then show ?thesis by (simp only: Ints_of_int)
qed

lemma round_double_error:
  assumes "x * 2 ^ 1074 \<in> \<int>"
  shows "\<bar>round_double x - x\<bar> \<le> 2 powi (- 53) * \<bar>x\<bar>"
proof (cases "x = 0")
  case True
  then show ?thesis by (simp add: round_double_def)
next
  case False
  define L where "L = floor_log2 \<bar>x\<bar>"
  define e where "e = max (- 1074) (L - 52)"
  define p where "p = (2::real) powi e"
  define n where "n = round_even (x / p)"
  have r: "round_double x = of_int n * p"
    using False by (simp add: round_double_def Let_def e_def n_def p_def L_def)
  have p: "0 < p" by (simp add: p_def)
  show ?thesis
  proof (cases "- 1074 \<le> L - 52")
    case True
    then have e: "e = L - 52" by (simp add: e_def)
    have "\<bar>real_of_int n - x / p\<bar> \<le> 1 / 2" unfolding n_def by (rule round_even_error)
    then have "\<bar>real_of_int n - x / p\<bar> * p \<le> 1 / 2 * p"
      using p by (simp only: mult_le_cancel_right_pos)
    moreover have "\<bar>real_of_int n - x / p\<bar> * p = \<bar>real_of_int n * p - x\<bar>"
    proof -
      have "\<bar>real_of_int n - x / p\<bar> * p = \<bar>(real_of_int n - x / p) * p\<bar>"
        using p by (simp add: abs_mult)
      also have "(real_of_int n - x / p) * p = real_of_int n * p - x"
        using p by (simp add: field_simps)
      finally show ?thesis .
    qed
    ultimately have err: "\<bar>round_double x - x\<bar> \<le> p / 2" unfolding r by simp
    have "2 powi L \<le> \<bar>x\<bar>"
      using floor_log2_bounds [of "\<bar>x\<bar>"] False unfolding L_def by simp
    moreover have "(2::real) powi L = p * 2 ^ 52"
    proof -
      have "L = e + 52" using e by simp
      then have "(2::real) powi L = 2 powi e * 2 powi 52" by (simp add: power_int_add)
      then show ?thesis by (simp add: p_def)
    qed
    ultimately have "p * 2 ^ 52 \<le> \<bar>x\<bar>" by simp
    then have "2 powi (- 53) * (p * 2 ^ 52) \<le> 2 powi (- 53) * \<bar>x\<bar>"
      by (simp only: mult_le_cancel_left_pos zero_less_power_int zero_less_numeral)
    moreover have "(2::real) powi (- 53) * (p * 2 ^ 52) = p / 2"
      by (simp add: power_int_def power_one_over)
    ultimately show ?thesis using err by linarith
  next
    case False
    then have e: "e = - 1074" by (simp add: e_def)
    define q where "q = (2::real) ^ 1074"
    have q: "0 < q" by (simp add: q_def)
    have pp: "p = 1 / q" unfolding p_def e q_def by (simp add: power_int_def power_one_over)
    from assms obtain k :: int where k: "x * q = of_int k"
      unfolding q_def by (auto elim: Ints_cases)
    have xq: "x = of_int k / q" using k q by (simp add: field_simps)
    have "x / p = of_int k" unfolding pp xq using q by simp
    then have "n = k" unfolding n_def by (simp add: round_even_of_int)
    then have "round_double x = of_int k * (1 / q)" using r pp by simp
    also have "\<dots> = x" using xq by simp
    finally show ?thesis by simp
  qed
qed

lemma is_double_grid: "is_double x \<Longrightarrow> x * 2 ^ 1074 \<in> \<int>"
  using round_double_grid [of x] by (simp add: is_double_def)

lemma grid_diff:
  assumes "a * 2 ^ 1074 \<in> \<int>" "b * 2 ^ 1074 \<in> \<int>"
  shows "(a - b) * 2 ^ 1074 \<in> (\<int> :: real set)"
proof -
  have "(a - b) * 2 ^ 1074 = a * 2 ^ 1074 - b * 2 ^ 1074" by (rule left_diff_distrib)
  then show ?thesis using assms by (simp only: Ints_diff)
qed

lemma fold_round_error:
  assumes "T * 2 ^ 1074 \<in> \<int>" "\<forall>x \<in> set xs. x * 2 ^ 1074 \<in> \<int>"
  shows "foldl (\<lambda>a x. round_double (a - x)) T xs * 2 ^ 1074 \<in> \<int> \<and>
         \<bar>foldl (\<lambda>a x. round_double (a - x)) T xs - (T - sum_list xs)\<bar>
           \<le> ((1 + 2 powi (- 53)) ^ length xs - 1) * (\<bar>T\<bar> + sum_list (map abs xs))"
  using assms(2)
proof (induction xs rule: rev_induct)
  case Nil
  then show ?case using assms(1) by simp
next
  case (snoc x xs)
  define u where "u = (2::real) powi (- 53)"
  define a where "a = foldl (\<lambda>a x. round_double (a - x)) T xs"
  define ex where "ex = T - sum_list xs"
  define M where "M = \<bar>T\<bar> + sum_list (map abs xs)"
  define c where "c = (1 + u) ^ length xs"
  have u: "0 \<le> u" by (simp add: u_def)
  have c1: "1 \<le> c" unfolding c_def using u by (simp add: one_le_power)
  have "0 \<le> sum_list (map abs xs)" by (rule sum_list_nonneg) auto
  then have M0: "0 \<le> M" unfolding M_def by simp
  have exM: "\<bar>ex\<bar> \<le> M"
  proof -
    have "\<bar>sum_list xs\<bar> \<le> sum_list (map abs xs)" by (rule sum_list_abs)
    then show ?thesis unfolding ex_def M_def by linarith
  qed
  have IH: "a * 2 ^ 1074 \<in> \<int>" "\<bar>a - ex\<bar> \<le> (c - 1) * M"
    using snoc unfolding a_def ex_def M_def c_def u_def by simp_all
  have gx: "x * 2 ^ 1074 \<in> \<int>" using snoc.prems by simp
  have gd: "(a - x) * 2 ^ 1074 \<in> \<int>" using IH(1) gx by (rule grid_diff)
  have unf: "foldl (\<lambda>a x. round_double (a - x)) T (xs @ [x]) = round_double (a - x)"
    by (simp add: a_def)
  have g': "round_double (a - x) * 2 ^ 1074 \<in> \<int>" by (rule round_double_grid)
  have re: "\<bar>round_double (a - x) - (a - x)\<bar> \<le> u * \<bar>a - x\<bar>"
    unfolding u_def using gd by (rule round_double_error)
  have ax: "\<bar>a - x\<bar> \<le> \<bar>a - ex\<bar> + (M + \<bar>x\<bar>)" using exM by linarith
  have "\<bar>round_double (a - x) - (ex - x)\<bar> \<le> \<bar>round_double (a - x) - (a - x)\<bar> + \<bar>a - ex\<bar>"
    by linarith
  also have "\<dots> \<le> u * \<bar>a - x\<bar> + \<bar>a - ex\<bar>" using re by linarith
  also have "\<dots> \<le> u * (\<bar>a - ex\<bar> + (M + \<bar>x\<bar>)) + \<bar>a - ex\<bar>"
    using mult_left_mono [OF ax u] by linarith
  also have "\<dots> = (1 + u) * \<bar>a - ex\<bar> + u * (M + \<bar>x\<bar>)" by (simp add: algebra_simps)
  also have "\<dots> \<le> (1 + u) * ((c - 1) * M) + u * (M + \<bar>x\<bar>)"
    using mult_left_mono [OF IH(2), of "1 + u"] u by linarith
  also have "\<dots> \<le> (1 + u) * ((c - 1) * (M + \<bar>x\<bar>)) + u * (M + \<bar>x\<bar>)"
  proof -
    have A: "(c - 1) * M \<le> (c - 1) * (M + \<bar>x\<bar>)"
      using c1 by (intro mult_left_mono) simp_all
    have "0 \<le> 1 + u" using u by simp
    from mult_left_mono [OF A this] show ?thesis by linarith
  qed
  also have "\<dots> = ((1 + u) * c - 1) * (M + \<bar>x\<bar>)" by (simp add: algebra_simps)
  finally have bound: "\<bar>round_double (a - x) - (ex - x)\<bar> \<le> ((1 + u) * c - 1) * (M + \<bar>x\<bar>)" .
  have e1: "T - sum_list (xs @ [x]) = ex - x" by (simp add: ex_def)
  have e2: "\<bar>T\<bar> + sum_list (map abs (xs @ [x])) = M + \<bar>x\<bar>" by (simp add: M_def)
  have e3: "(1 + 2 powi (- 53)) ^ length (xs @ [x]) = (1 + u) * c" by (simp add: c_def u_def)
  show ?case unfolding unf e1 e2 e3 using g' bound by simp
qed

lemma to_double_cases:
  "to_double x = Finite (round_double x) \<or> to_double x = PlusInfinity \<or> to_double x = MinusInfinity"
  by (simp add: to_double_def Let_def)

lemma to_double_Finite:
  "\<bar>round_double x\<bar> \<le> DBL_MAX \<Longrightarrow> to_double x = Finite (round_double x)"
  by (auto simp: to_double_def Let_def abs_le_iff)

lemma foldl_minus_infinite:
  assumes "\<forall>d \<in> set ds. is_Finite d"
  shows "foldl double_minus PlusInfinity ds = PlusInfinity"
    and "foldl double_minus MinusInfinity ds = MinusInfinity"
  using assms by (induction ds) (auto simp: is_Finite_def)

lemma foldl_minus_finite:
  assumes "\<forall>d \<in> set ds. is_Finite d" "foldl double_minus (Finite a) ds = Finite v"
  shows "v = foldl (\<lambda>a x. round_double (a - x)) a (map double_value ds)"
  using assms
proof (induction ds arbitrary: a)
  case Nil
  then show ?case by simp
next
  case (Cons d ds)
  from Cons.prems(1) obtain x where d: "d = Finite x" by (auto simp: is_Finite_def)
  have fin: "\<forall>d \<in> set ds. is_Finite d" using Cons.prems(1) by simp
  have step: "foldl double_minus (to_double (a - x)) ds = Finite v"
    using Cons.prems(2) d by simp
  from to_double_cases [of "a - x"] have "to_double (a - x) = Finite (round_double (a - x))"
  proof (elim disjE)
    assume "to_double (a - x) = PlusInfinity"
    then show ?thesis using step foldl_minus_infinite(1) [OF fin] by simp
  next
    assume "to_double (a - x) = MinusInfinity"
    then show ?thesis using step foldl_minus_infinite(2) [OF fin] by simp
  qed
  then have "foldl double_minus (Finite (round_double (a - x))) ds = Finite v"
    using step by simp
  from Cons.IH [OF fin this] show ?case using d by simp
qed


text \<open>The loop of \<open>FixHistogram\<close>.\<close>

lemma FixHistogram_step_length [simp]: "length (FixHistogram_step m i d) = length d"
  by (simp add: FixHistogram_step_def Let_def)

lemma step_other:
  "j \<noteq> GET_GRAD m \<Longrightarrow> j \<noteq> GET_HESS m \<Longrightarrow> FixHistogram_step m i d ! j = d ! j"
  by (simp add: FixHistogram_step_def Let_def)

lemma fold_FixHistogram_step_length [simp]: "length (fold (FixHistogram_step m) is d) = length d"
  by (induction "is" arbitrary: d) simp_all

lemma fold_step_other:
  "j \<noteq> GET_GRAD m \<Longrightarrow> j \<noteq> GET_HESS m \<Longrightarrow> fold (FixHistogram_step m) is d ! j = d ! j"
  by (induction "is" arbitrary: d) (simp_all add: step_other)

lemma GET_neq: "i \<noteq> m \<Longrightarrow> GET_GRAD i \<noteq> GET_GRAD m \<and> GET_GRAD i \<noteq> GET_HESS m \<and> GET_HESS i \<noteq> GET_GRAD m \<and> GET_HESS i \<noteq> GET_HESS m"
  by (auto simp: GET_GRAD_def GET_HESS_def; presburger)

lemma step_at:
  assumes "i \<noteq> m" "GET_HESS m < length d"
  shows "FixHistogram_step m i d ! GET_GRAD m = double_minus (d ! GET_GRAD m) (d ! GET_GRAD i)"
    and "FixHistogram_step m i d ! GET_HESS m = double_minus (d ! GET_HESS m) (d ! GET_HESS i)"
  using assms GET_neq [OF assms(1)]
  by (simp_all add: FixHistogram_step_def Let_def GET_GRAD_def GET_HESS_def)

lemma step_same: "FixHistogram_step m m d = d"
  by (simp add: FixHistogram_step_def)

lemma fold_step_grad:
  assumes "GET_HESS m < length d"
  shows "fold (FixHistogram_step m) [0..<k] d ! GET_GRAD m =
           foldl double_minus (d ! GET_GRAD m)
             (map (\<lambda>i. d ! GET_GRAD i) (filter (\<lambda>i. i \<noteq> m) [0..<k]))
       \<and> fold (FixHistogram_step m) [0..<k] d ! GET_HESS m =
           foldl double_minus (d ! GET_HESS m)
             (map (\<lambda>i. d ! GET_HESS i) (filter (\<lambda>i. i \<noteq> m) [0..<k]))"
proof (induction k)
  case 0
  show ?case by simp
next
  case (Suc k)
  let ?d = "fold (FixHistogram_step m) [0..<k] d"
  have unf: "fold (FixHistogram_step m) [0..<Suc k] d = FixHistogram_step m k ?d" by simp
  have len: "GET_HESS m < length ?d" using assms by simp
  show ?case
  proof (cases "k = m")
    case True
    then show ?thesis using Suc unfolding unf by (simp add: step_same)
  next
    case False
    have old: "?d ! GET_GRAD k = d ! GET_GRAD k" "?d ! GET_HESS k = d ! GET_HESS k"
      using GET_neq [OF False] by (simp_all add: fold_step_other)
    show ?thesis
      unfolding unf step_at [OF False len] old using Suc False by simp
  qed
qed

lemma FixHistogram_unfold:
  "0 < GetMostFreqBin (FeatureBinMapper ds f) \<Longrightarrow>
   FixHistogram ds f sg sh n data =
     fold (FixHistogram_step (nat (GetMostFreqBin (FeatureBinMapper ds f))))
       [0..<nat (num_bin (FeatureBinMapper ds f))]
       (data[GET_GRAD (nat (GetMostFreqBin (FeatureBinMapper ds f))) := sg,
             GET_HESS (nat (GetMostFreqBin (FeatureBinMapper ds f))) := sh])"
  by (simp add: FixHistogram_def FeatureBinMapper_def Let_def)

lemma FixHistogram_noop:
  "GetMostFreqBin (FeatureBinMapper ds f) \<le> 0 \<Longrightarrow> FixHistogram ds f sg sh n data = data"
  by (simp add: FixHistogram_def FeatureBinMapper_def Let_def)

lemma others_length:
  assumes "m < nb"
  shows "length (filter (\<lambda>i. i \<noteq> m) [0..<nb]) = nb - 1"
proof -
  have "length (filter (\<lambda>i. i \<noteq> m) [0..<nb]) = card ({i. i \<noteq> m} \<inter> set [0..<nb])"
    by (rule distinct_length_filter) simp
  also have "{i. i \<noteq> m} \<inter> set [0..<nb] = {..<nb} - {m}" by auto
  also have "card ({..<nb} - {m}) = nb - 1" using assms by simp
  finally show ?thesis .
qed

lemma sum_bins_split:
  assumes "m < nb"
  shows "(\<Sum>i<nb. f i) = f m + (\<Sum>i \<leftarrow> filter (\<lambda>i. i \<noteq> m) [0..<nb]. (f i :: real))"
proof -
  have "(\<Sum>i \<leftarrow> filter (\<lambda>i. i \<noteq> m) [0..<nb]. f i) = sum f (set (filter (\<lambda>i. i \<noteq> m) [0..<nb]))"
    by (rule sum_list_distinct_conv_sum_set) simp
  also have "set (filter (\<lambda>i. i \<noteq> m) [0..<nb]) = {..<nb} - {m}" by auto
  finally have "(\<Sum>i \<leftarrow> filter (\<lambda>i. i \<noteq> m) [0..<nb]. f i) = sum f ({..<nb} - {m})" .
  then show ?thesis using sum.remove [of "{..<nb}" m f] assms by simp
qed

text \<open>
  The entry the loop leaves at \<open>most_freq_bin\<close>, for finite doubles and a finite result,
  against the exact difference.
\<close>

lemma finite_doubleD:
  "finite_double d \<Longrightarrow> \<exists>x. d = Finite x \<and> is_double x"
  by (cases d) (simp_all add: finite_double_def)

lemma foldl_minus_bound:
  assumes T: "finite_double T" and ds: "\<forall>d \<in> set ds. finite_double d"
    and fin: "is_Finite (foldl double_minus T ds)"
  shows "\<bar>double_value (foldl double_minus T ds)
            - (double_value T - (\<Sum>d \<leftarrow> ds. double_value d))\<bar>
          \<le> ((1 + 2 powi (- 53)) ^ length ds - 1)
              * (\<bar>double_value T\<bar> + (\<Sum>d \<leftarrow> ds. \<bar>double_value d\<bar>))"
proof -
  from T obtain t where t: "T = Finite t" "is_double t"
    by (auto dest: finite_doubleD)
  from fin obtain v where v: "foldl double_minus T ds = Finite v"
    by (auto simp: is_Finite_def)
  have f: "\<forall>d \<in> set ds. is_Finite d"
  proof
    fix d assume "d \<in> set ds"
    then have "finite_double d" using ds by simp
    then show "is_Finite d" by (auto dest: finite_doubleD)
  qed
  have g: "\<forall>x \<in> set (map double_value ds). x * 2 ^ 1074 \<in> \<int>"
  proof
    fix x assume "x \<in> set (map double_value ds)"
    then obtain d where d: "d \<in> set ds" "x = double_value d" by auto
    then have "finite_double d" using ds by simp
    then obtain y where y: "d = Finite y" "is_double y" by (auto dest: finite_doubleD)
    have xy: "x = y" using d(2) y(1) by simp
    show "x * 2 ^ 1074 \<in> \<int>" unfolding xy using y(2) by (rule is_double_grid)
  qed
  have vv: "v = foldl (\<lambda>a x. round_double (a - x)) t (map double_value ds)"
    using foldl_minus_finite [OF f] v t(1) by simp
  have m: "map abs (map double_value ds) = map (\<lambda>d. \<bar>double_value d\<bar>) ds" by simp
  from fold_round_error [OF is_double_grid [OF t(2)] g]
  show ?thesis unfolding v vv [symmetric] using t(1) by (simp add: m o_def)
qed

text \<open>\<open>DBL_MAX\<close> written out, for the evaluation of the examples.\<close>

lemma DBL_MAX_code [code]:
  "DBL_MAX = 179769313486231570814527423731704356798070567525844996598917476803157260780028538760589558632766878171540458953514382464234321326889464182768467546703537516986049910576551282076245490090389328944075868508455133942304583236903222948165808559332123348274797826204144723168738177180919299881250404026184124858368"
  by (simp add: DBL_MAX_def)

text \<open>
  Claim C1, as the code has it. With \<open>most_freq_bin\<close> positive (and, as for every bin mapper, below
  \<open>num_bin\<close>, the buffer holding the \<open>num_bin\<close> pairs of the feature), \<open>FixHistogram\<close>
  changes only the entry at \<open>most_freq_bin\<close>, which becomes the leaf total from which the
  other bins have been subtracted one after the other in the order of the bins, every
  difference rounded to a double. When the leaf total and the other bins are finite doubles
  and the entry stored is finite, the gradient slots of all bins then add up, over the
  reals, to \<open>sum_gradient\<close> with an error of at most
  \<open>((1 + 2\<^sup>-\<^sup>5\<^sup>3) ^ (num_bin - 1) - 1) * (\<bar>sum_gradient\<bar> + \<Sum> \<bar>other bins\<bar>)\<close>, and the hessian
  slots to \<open>sum_hessian\<close> likewise. With \<open>most_freq_bin = 0\<close> the buffer is returned
  unchanged.
\<close>

theorem FixHistogram_restores_totals_rounded:
  "let bm = FeatureBinMapper ds feature_idx;
       m = nat (GetMostFreqBin bm);
       nb = nat (num_bin bm);
       others = filter (\<lambda>i. i \<noteq> m) [0..<nb];
       fixed = FixHistogram ds feature_idx sum_gradient sum_hessian num_data data
   in (0 < GetMostFreqBin bm \<and> GetMostFreqBin bm < num_bin bm \<and> 2 * nb \<le> length data \<longrightarrow>
         fixed ! GET_GRAD m
           = foldl double_minus sum_gradient (map (\<lambda>i. data ! GET_GRAD i) others) \<and>
         fixed ! GET_HESS m
           = foldl double_minus sum_hessian (map (\<lambda>i. data ! GET_HESS i) others) \<and>
         length fixed = length data \<and>
         (\<forall>j. j \<noteq> GET_GRAD m \<and> j \<noteq> GET_HESS m \<longrightarrow> fixed ! j = data ! j) \<and>
         (finite_double sum_gradient \<and> (\<forall>i \<in> set others. finite_double (data ! GET_GRAD i)) \<and>
          is_Finite (fixed ! GET_GRAD m) \<longrightarrow>
            \<bar>(\<Sum>i<nb. double_value (fixed ! GET_GRAD i)) - double_value sum_gradient\<bar>
              \<le> ((1 + 2 powi (- 53)) ^ (nb - 1) - 1)
                  * (\<bar>double_value sum_gradient\<bar>
                       + (\<Sum>i \<leftarrow> others. \<bar>double_value (data ! GET_GRAD i)\<bar>))) \<and>
         (finite_double sum_hessian \<and> (\<forall>i \<in> set others. finite_double (data ! GET_HESS i)) \<and>
          is_Finite (fixed ! GET_HESS m) \<longrightarrow>
            \<bar>(\<Sum>i<nb. double_value (fixed ! GET_HESS i)) - double_value sum_hessian\<bar>
              \<le> ((1 + 2 powi (- 53)) ^ (nb - 1) - 1)
                  * (\<bar>double_value sum_hessian\<bar>
                       + (\<Sum>i \<leftarrow> others. \<bar>double_value (data ! GET_HESS i)\<bar>))))
    \<and> (GetMostFreqBin bm = 0 \<longrightarrow> fixed = data)"
proof -
  define bm where "bm = FeatureBinMapper ds feature_idx"
  define m where "m = nat (GetMostFreqBin bm)"
  define nb where "nb = nat (num_bin bm)"
  define others where "others = filter (\<lambda>i. i \<noteq> m) [0..<nb]"
  define fixed where "fixed = FixHistogram ds feature_idx sum_gradient sum_hessian num_data data"
  have noop: "fixed = data" if "GetMostFreqBin bm = 0"
    using that unfolding fixed_def bm_def by (simp add: FixHistogram_noop)
  have main: "fixed ! GET_GRAD m
           = foldl double_minus sum_gradient (map (\<lambda>i. data ! GET_GRAD i) others) \<and>
         fixed ! GET_HESS m
           = foldl double_minus sum_hessian (map (\<lambda>i. data ! GET_HESS i) others) \<and>
         length fixed = length data \<and>
         (\<forall>j. j \<noteq> GET_GRAD m \<and> j \<noteq> GET_HESS m \<longrightarrow> fixed ! j = data ! j) \<and>
         (finite_double sum_gradient \<and> (\<forall>i \<in> set others. finite_double (data ! GET_GRAD i)) \<and>
          is_Finite (fixed ! GET_GRAD m) \<longrightarrow>
            \<bar>(\<Sum>i<nb. double_value (fixed ! GET_GRAD i)) - double_value sum_gradient\<bar>
              \<le> ((1 + 2 powi (- 53)) ^ (nb - 1) - 1)
                  * (\<bar>double_value sum_gradient\<bar>
                       + (\<Sum>i \<leftarrow> others. \<bar>double_value (data ! GET_GRAD i)\<bar>))) \<and>
         (finite_double sum_hessian \<and> (\<forall>i \<in> set others. finite_double (data ! GET_HESS i)) \<and>
          is_Finite (fixed ! GET_HESS m) \<longrightarrow>
            \<bar>(\<Sum>i<nb. double_value (fixed ! GET_HESS i)) - double_value sum_hessian\<bar>
              \<le> ((1 + 2 powi (- 53)) ^ (nb - 1) - 1)
                  * (\<bar>double_value sum_hessian\<bar>
                       + (\<Sum>i \<leftarrow> others. \<bar>double_value (data ! GET_HESS i)\<bar>)))"
    if pos: "0 < GetMostFreqBin bm" and lt: "GetMostFreqBin bm < num_bin bm"
      and len: "2 * nb \<le> length data"
  proof -
    let ?d0 = "data[GET_GRAD m := sum_gradient, GET_HESS m := sum_hessian]"
    have fx: "fixed = fold (FixHistogram_step m) [0..<nb] ?d0"
      using pos unfolding fixed_def bm_def m_def nb_def by (rule FixHistogram_unfold)
    have mnb: "m < nb" using pos lt by (simp add: m_def nb_def)
    have inr: "GET_HESS m < length ?d0" "GET_GRAD m < length data" "GET_HESS m < length data"
      using mnb len by (simp_all add: GET_GRAD_def GET_HESS_def)
    have gh: "GET_GRAD m \<noteq> GET_HESS m" by (simp add: GET_GRAD_def GET_HESS_def)
    have d0_other: "?d0 ! GET_GRAD i = data ! GET_GRAD i" "?d0 ! GET_HESS i = data ! GET_HESS i"
      if "i \<noteq> m" for i using GET_neq [OF that] by simp_all
    have maps0: "map (\<lambda>i. ?d0 ! GET_GRAD i) others = map (\<lambda>i. data ! GET_GRAD i) others"
      "map (\<lambda>i. ?d0 ! GET_HESS i) others = map (\<lambda>i. data ! GET_HESS i) others"
      unfolding others_def by (rule map_cong; simp add: d0_other)+
    have at0: "?d0 ! GET_GRAD m = sum_gradient" "?d0 ! GET_HESS m = sum_hessian"
      using inr gh by simp_all
    have g: "fixed ! GET_GRAD m
           = foldl double_minus sum_gradient (map (\<lambda>i. data ! GET_GRAD i) others)"
      and h: "fixed ! GET_HESS m
           = foldl double_minus sum_hessian (map (\<lambda>i. data ! GET_HESS i) others)"
      using fold_step_grad [OF inr(1), of nb] unfolding fx others_def [symmetric] maps0 at0
      by simp_all
    have l: "length fixed = length data" unfolding fx by simp
    have o: "fixed ! j = data ! j" if "j \<noteq> GET_GRAD m" "j \<noteq> GET_HESS m" for j
      unfolding fx using that by (simp add: fold_step_other)
    have lo: "length others = nb - 1" unfolding others_def using mnb by (rule others_length)
    have og: "fixed ! GET_GRAD i = data ! GET_GRAD i" "fixed ! GET_HESS i = data ! GET_HESS i"
      if "i \<in> set others" for i
      using that GET_neq [of i m] o unfolding others_def by simp_all
    have bound: "\<bar>(\<Sum>i<nb. double_value (fixed ! G i)) - double_value T\<bar>
              \<le> ((1 + 2 powi (- 53)) ^ (nb - 1) - 1)
                  * (\<bar>double_value T\<bar> + (\<Sum>i \<leftarrow> others. \<bar>double_value (data ! G i)\<bar>))"
      if st: "fixed ! G m = foldl double_minus T (map (\<lambda>i. data ! G i) others)"
        and ot: "\<And>i. i \<in> set others \<Longrightarrow> fixed ! G i = data ! G i"
        and T: "finite_double T" and fin: "\<forall>i \<in> set others. finite_double (data ! G i)"
        and res: "is_Finite (fixed ! G m)"
      for G :: "nat \<Rightarrow> nat" and T
    proof -
      let ?ds = "map (\<lambda>i. data ! G i) others"
      have f: "\<forall>d \<in> set ?ds. finite_double d" using fin by simp
      have r: "is_Finite (foldl double_minus T ?ds)" using res unfolding st .
      note b = foldl_minus_bound [OF T f r]
      have s1: "(\<Sum>d \<leftarrow> ?ds. double_value d) = (\<Sum>i \<leftarrow> others. double_value (data ! G i))"
        by (simp add: o_def)
      have s2: "(\<Sum>d \<leftarrow> ?ds. \<bar>double_value d\<bar>) = (\<Sum>i \<leftarrow> others. \<bar>double_value (data ! G i)\<bar>)"
        by (simp add: o_def)
      have "(\<Sum>i \<leftarrow> others. double_value (fixed ! G i)) = (\<Sum>i \<leftarrow> others. double_value (data ! G i))"
        by (rule arg_cong [where f = sum_list]) (rule map_cong; simp add: ot)
      then have "(\<Sum>i<nb. double_value (fixed ! G i))
          = double_value (fixed ! G m) + (\<Sum>i \<leftarrow> others. double_value (data ! G i))"
        using sum_bins_split [OF mnb, of "\<lambda>i. double_value (fixed ! G i)"]
        unfolding others_def by simp
      then have e: "(\<Sum>i<nb. double_value (fixed ! G i)) - double_value T
          = double_value (foldl double_minus T ?ds)
              - (double_value T - (\<Sum>d \<leftarrow> ?ds. double_value d))"
        unfolding st s1 by simp
      have len: "length ?ds = nb - 1" using lo by simp
      from b have "\<bar>double_value (foldl double_minus T ?ds)
              - (double_value T - (\<Sum>d \<leftarrow> ?ds. double_value d))\<bar>
          \<le> ((1 + 2 powi (- 53)) ^ (nb - 1) - 1)
              * (\<bar>double_value T\<bar> + (\<Sum>i \<leftarrow> others. \<bar>double_value (data ! G i)\<bar>))"
        unfolding s2 len .
      then show ?thesis unfolding e .
    qed
    have bg: "finite_double sum_gradient \<and> (\<forall>i \<in> set others. finite_double (data ! GET_GRAD i)) \<and>
          is_Finite (fixed ! GET_GRAD m) \<longrightarrow>
            \<bar>(\<Sum>i<nb. double_value (fixed ! GET_GRAD i)) - double_value sum_gradient\<bar>
              \<le> ((1 + 2 powi (- 53)) ^ (nb - 1) - 1)
                  * (\<bar>double_value sum_gradient\<bar>
                       + (\<Sum>i \<leftarrow> others. \<bar>double_value (data ! GET_GRAD i)\<bar>))"
      using bound [of GET_GRAD sum_gradient, OF g og(1)] by blast
    have bh: "finite_double sum_hessian \<and> (\<forall>i \<in> set others. finite_double (data ! GET_HESS i)) \<and>
          is_Finite (fixed ! GET_HESS m) \<longrightarrow>
            \<bar>(\<Sum>i<nb. double_value (fixed ! GET_HESS i)) - double_value sum_hessian\<bar>
              \<le> ((1 + 2 powi (- 53)) ^ (nb - 1) - 1)
                  * (\<bar>double_value sum_hessian\<bar>
                       + (\<Sum>i \<leftarrow> others. \<bar>double_value (data ! GET_HESS i)\<bar>))"
      using bound [of GET_HESS sum_hessian, OF h og(2)] by blast
    show ?thesis using g h l o bg bh by blast
  qed
  show ?thesis
    using main noop
    unfolding Let_def bm_def [symmetric] m_def [symmetric] nb_def [symmetric]
      others_def [symmetric] fixed_def [symmetric]
    by blast
qed

theorem FixHistogram_restores_totals_rounded_witness:
  "0 < GetMostFreqBin (FeatureBinMapper example_dataset 0) \<and>
   GetMostFreqBin (FeatureBinMapper example_dataset 0) < num_bin (FeatureBinMapper example_dataset 0) \<and>
   2 * nat (num_bin (FeatureBinMapper example_dataset 0)) \<le> length rounding_histogram \<and>
   finite_double rounding_total \<and>
   finite_double (rounding_histogram ! GET_GRAD 0) \<and>
   finite_double (rounding_histogram ! GET_GRAD 2) \<and>
   is_Finite (FixHistogram example_dataset 0 rounding_total rounding_total 8 rounding_histogram
                ! GET_GRAD 1) \<and>
   \<bar>(\<Sum>i<3. double_value
              (FixHistogram example_dataset 0 rounding_total rounding_total 8 rounding_histogram
                 ! GET_GRAD i))
      - double_value rounding_total\<bar>
     \<le> ((1 + 2 powi (- 53)) ^ (3 - 1) - 1)
         * (\<bar>double_value rounding_total\<bar>
              + (\<Sum>i \<leftarrow> [0, 2]. \<bar>double_value (rounding_histogram ! GET_GRAD i)\<bar>))"
proof -
  have bm: "FeatureBinMapper example_dataset 0 = example_mapper"
    by (simp add: FeatureBinMapper_def example_dataset_def)
  have nb: "nat (num_bin example_mapper) = 3" and m: "nat (GetMostFreqBin example_mapper) = 1"
    by (simp_all add: example_mapper_def)
  have oth: "filter (\<lambda>i. i \<noteq> (1::nat)) [0..<3] = [0, 2]" by code_simp
  have h1: "0 < GetMostFreqBin example_mapper" "GetMostFreqBin example_mapper < num_bin example_mapper"
    by (simp_all add: example_mapper_def)
  have h2: "2 * (3::nat) \<le> length rounding_histogram" by (simp add: rounding_histogram_def)
  have h3: "finite_double rounding_total" by code_simp
  have h4: "\<forall>i \<in> set [0, 2]. finite_double (rounding_histogram ! GET_GRAD i)" by code_simp
  have h5: "is_Finite (FixHistogram example_dataset 0 rounding_total rounding_total 8
      rounding_histogram ! GET_GRAD 1)" by code_simp
  note inst = FixHistogram_restores_totals_rounded [of example_dataset 0 rounding_total
      rounding_total 8 rounding_histogram, unfolded Let_def bm nb m oth]
  have "\<bar>(\<Sum>i<3. double_value
              (FixHistogram example_dataset 0 rounding_total rounding_total 8 rounding_histogram
                 ! GET_GRAD i))
      - double_value rounding_total\<bar>
     \<le> ((1 + 2 powi (- 53)) ^ (3 - 1) - 1)
         * (\<bar>double_value rounding_total\<bar>
              + (\<Sum>i \<leftarrow> [0, 2]. \<bar>double_value (rounding_histogram ! GET_GRAD i)\<bar>))"
    using inst h1 h2 h3 h4 h5 by blast
  moreover have "finite_double (rounding_histogram ! GET_GRAD 0)"
    "finite_double (rounding_histogram ! GET_GRAD 2)"
    using h4 by simp_all
  ultimately show ?thesis using h1 h2 h3 h5 unfolding bm nb by blast
qed

text \<open>
  The claim as stated fails, the totals are not restored exactly: for the leaf totals
  \<open>0.1\<close> and the bins \<open>0.2\<close>, \<open>0\<close> and \<open>0.3\<close> (the doubles nearest to them), the
  entry stored at \<open>most_freq_bin = 1\<close> is the double \<open>-0.4\<close>, and the three bins add up
  to the leaf total less \<open>2\<^sup>-\<^sup>5\<^sup>5\<close>.
\<close>

theorem FixHistogram_totals_not_exact:
  "0 < GetMostFreqBin (FeatureBinMapper example_dataset 0) \<and>
   GetMostFreqBin (FeatureBinMapper example_dataset 0) < num_bin (FeatureBinMapper example_dataset 0) \<and>
   2 * nat (num_bin (FeatureBinMapper example_dataset 0)) \<le> length rounding_histogram \<and>
   nat (num_bin (FeatureBinMapper example_dataset 0)) = 3 \<and>
   rounding_total = Finite (3602879701896397 / 2 ^ 55) \<and>
   rounding_histogram
     = [Finite (3602879701896397 / 2 ^ 54), Finite (3602879701896397 / 2 ^ 54),
        Finite 0, Finite 0,
        Finite (5404319552844595 / 2 ^ 54), Finite (5404319552844595 / 2 ^ 54)] \<and>
   FixHistogram example_dataset 0 rounding_total rounding_total 8 rounding_histogram
     = [Finite (3602879701896397 / 2 ^ 54), Finite (3602879701896397 / 2 ^ 54),
        Finite (- (3602879701896397 / 2 ^ 53)), Finite (- (3602879701896397 / 2 ^ 53)),
        Finite (5404319552844595 / 2 ^ 54), Finite (5404319552844595 / 2 ^ 54)] \<and>
   double_value (FixHistogram example_dataset 0 rounding_total rounding_total 8 rounding_histogram
                   ! GET_GRAD 0)
     + double_value (FixHistogram example_dataset 0 rounding_total rounding_total 8
                       rounding_histogram ! GET_GRAD 1)
     + double_value (FixHistogram example_dataset 0 rounding_total rounding_total 8
                       rounding_histogram ! GET_GRAD 2)
     = double_value rounding_total - 1 / 2 ^ 55 \<and>
   double_value (FixHistogram example_dataset 0 rounding_total rounding_total 8 rounding_histogram
                   ! GET_GRAD 0)
     + double_value (FixHistogram example_dataset 0 rounding_total rounding_total 8
                       rounding_histogram ! GET_GRAD 1)
     + double_value (FixHistogram example_dataset 0 rounding_total rounding_total 8
                       rounding_histogram ! GET_GRAD 2)
     \<noteq> double_value rounding_total \<and>
   double_value (FixHistogram example_dataset 0 rounding_total rounding_total 8 rounding_histogram
                   ! GET_HESS 0)
     + double_value (FixHistogram example_dataset 0 rounding_total rounding_total 8
                       rounding_histogram ! GET_HESS 1)
     + double_value (FixHistogram example_dataset 0 rounding_total rounding_total 8
                       rounding_histogram ! GET_HESS 2)
     \<noteq> double_value rounding_total"
proof -
  define fx where
    "fx = FixHistogram example_dataset 0 rounding_total rounding_total 8 rounding_histogram"
  have bm: "FeatureBinMapper example_dataset 0 = example_mapper"
    by (simp add: FeatureBinMapper_def example_dataset_def)
  have h: "0 < GetMostFreqBin example_mapper" "GetMostFreqBin example_mapper < num_bin example_mapper"
    "nat (num_bin example_mapper) = 3"
    by (simp_all add: example_mapper_def)
  have t: "rounding_total = Finite (3602879701896397 / 2 ^ 55)" by code_simp
  have d: "rounding_histogram
     = [Finite (3602879701896397 / 2 ^ 54), Finite (3602879701896397 / 2 ^ 54),
        Finite 0, Finite 0,
        Finite (5404319552844595 / 2 ^ 54), Finite (5404319552844595 / 2 ^ 54)]"
    by code_simp
  have l: "2 * nat (num_bin example_mapper) \<le> length rounding_histogram"
    unfolding d h(3) by simp
  have f: "fx
     = [Finite (3602879701896397 / 2 ^ 54), Finite (3602879701896397 / 2 ^ 54),
        Finite (- (3602879701896397 / 2 ^ 53)), Finite (- (3602879701896397 / 2 ^ 53)),
        Finite (5404319552844595 / 2 ^ 54), Finite (5404319552844595 / 2 ^ 54)]"
    unfolding fx_def by code_simp
  have sg: "double_value (fx ! GET_GRAD 0) + double_value (fx ! GET_GRAD 1)
      + double_value (fx ! GET_GRAD 2) = double_value rounding_total - 1 / 2 ^ 55"
    unfolding f t by (simp add: GET_GRAD_def)
  have sh: "double_value (fx ! GET_HESS 0) + double_value (fx ! GET_HESS 1)
      + double_value (fx ! GET_HESS 2) = double_value rounding_total - 1 / 2 ^ 55"
    unfolding f t by (simp add: GET_HESS_def)
  have ng: "double_value (fx ! GET_GRAD 0) + double_value (fx ! GET_GRAD 1)
      + double_value (fx ! GET_GRAD 2) \<noteq> double_value rounding_total"
    unfolding sg by simp
  have nh: "double_value (fx ! GET_HESS 0) + double_value (fx ! GET_HESS 1)
      + double_value (fx ! GET_HESS 2) \<noteq> double_value rounding_total"
    unfolding sh by simp
  show ?thesis
    unfolding bm fx_def [symmetric] using h(1,2) l h(3) t d f sg ng nh by (intro conjI)
qed

section \<open>Properties of addFeaturesFrom\<close>

lemma PushClearIfEmpty_three_way:
  "PushClearIfEmpty dest dest_len src src_len d =
     (if dest = [] \<and> src = [] then []
      else (if dest = [] then replicate dest_len d else dest)
         @ (if src = [] then replicate src_len d else src))"
  by (simp add: PushClearIfEmpty_def PushVector_def)

text \<open>
  Claim C6. The three-way rule holds as \<open>PushClearIfEmpty_three_way\<close> states it, but the
  padding has \<open>num_total_features_\<close> entries for all three vectors, while
  \<open>monotone_types_\<close> and \<open>feature_penalty_\<close> hold one entry per used feature
  (\<open>num_features_\<close>). With a trivial feature on the padded side the result is neither empty
  nor of the length of the combined dataset: here the receiver has one used feature of two
  and the monotone vector \<open>[1]\<close>, the other dataset has one used feature of two and no
  monotone vector, and the result has three entries for two used features.
\<close>

theorem addFeaturesFrom_monotone_types_length:
  "optional_vectors_ok monotone_dataset \<and> optional_vectors_ok sparse_dataset \<and>
   num_data_m monotone_dataset = num_data_m sparse_dataset \<and>
   (\<exists>r. addFeaturesFrom monotone_dataset sparse_dataset = Inr r \<and>
        monotone_types_m r = [1, 0, 0] \<and> num_features_m r = 2 \<and> num_total_features_m r = 4 \<and>
        \<not> optional_vectors_ok r)"
  by (simp add: addFeaturesFrom_def monotone_dataset_def sparse_dataset_def example_dataset_def
      optional_vectors_ok_def PushClearIfEmpty_def PushVector_def to_size_t_def numeral_2_eq_2)


section \<open>Properties of SaveBinaryFile\<close>

text \<open>
  Claim C7, as the code has it. \<open>SaveBinaryFile\<close> called with the dataset's own data
  filename logs one warning and returns normally: no file is written, the dataset is
  unchanged, and nothing is reported as fatal.
\<close>

theorem SaveBinaryFile_same_name_warns:
  "SaveBinaryFile metadata_size feature_size Init ds files (Some (data_filename_m ds)) =
     Inr (ds, files, [Warning (''Bianry file '' @ data_filename_m ds @ '' already exists'')])"
  by (simp add: SaveBinaryFile_def)

text \<open>
  The claim as stated fails: saving the example dataset, whose data filename is
  \<open>noname\<close>, to \<open>noname\<close> is not fatal.
\<close>

theorem SaveBinaryFile_same_name_not_fatal:
  "SaveBinaryFile example_metadata_size example_feature_size Init_succeeds example_dataset no_files
     (Some ''noname'') \<noteq> Inl Fatal \<and>
   SaveBinaryFile example_metadata_size example_feature_size Init_succeeds example_dataset no_files
     (Some ''noname'') =
     Inr (example_dataset, no_files, [Warning ''Bianry file noname already exists''])"
  by (simp add: SaveBinaryFile_def example_dataset_def)

text \<open>Any other name that does not exist yet is written.\<close>

lemma SaveBinaryFile_writes:
  "\<exists>ds' files'. SaveBinaryFile example_metadata_size example_feature_size Init_succeeds example_dataset no_files
     (Some ''train.bin'') = Inr (ds', files', [Info ''Saving data to binary file train.bin'']) \<and> files' ''train.bin'' \<noteq> None"
  by (simp add: SaveBinaryFile_def example_dataset_def no_files_def Init_succeeds_def Let_def)



section \<open>Properties of ConstructHistograms\<close>

text \<open>
  Claim C8. With \<open>leaf_idx < 0\<close>, \<open>num_data < 0\<close> or a null \<open>hist_data\<close> the call returns at
  once: the histogram buffer, the two ordered buffers and the dataset (its scratch buffer
  included) are what they were.
\<close>

theorem ConstructHistograms_guard:
  "leaf_idx < 0 \<or> num_data < 0 \<or> hist_data bufs = None \<Longrightarrow>
   ConstructHistograms bin_ConstructHistogram num_threads ds is_feature_used data_indices
     num_data leaf_idx gradients hessians is_constant_hessian bufs = Inr (ds, bufs)"
  by (simp add: ConstructHistograms_def)

theorem ConstructHistograms_guard_witness:
  "((-1::int) < 0 \<or> (8::int) < 0 \<or> hist_data example_buffers = None) \<and>
   ConstructHistograms example_histogram 1 example_dataset [1] None 8 (-1)
     [1, 1, 1, 1, 1, 1, 1, 1] [1, 1, 1, 1, 1, 1, 1, 1] False example_buffers
     = Inr (example_dataset, example_buffers)"
  using ConstructHistograms_guard [of "-1" 8 example_buffers example_histogram 1 example_dataset
      "[1]" None "[1, 1, 1, 1, 1, 1, 1, 1]" "[1, 1, 1, 1, 1, 1, 1, 1]" False]
  by simp

text \<open>A call that passes the guard does write the histogram.\<close>

lemma ConstructHistograms_writes:
  "ConstructHistograms example_histogram 1 example_dataset [1] None 8 0
     [1, 1, 1, 1, 1, 1, 1, 1] [1, 1, 1, 1, 1, 1, 1, 1] False example_buffers
     = Inr (example_dataset, example_buffers\<lparr>hist_data := Some [1, 1, 1, 1, 1, 1]\<rparr>)"
  by (simp add: ConstructHistograms_def example_dataset_def example_buffers_def is_group_used_def
      dense_group_def example_histogram_def write_slice_def Let_def numeral_eq_Suc)

section \<open>Properties of FindGroups\<close>

text \<open>Invariants of the two loop combinators.\<close>

lemma fold_err_invariant:
  assumes "fold_err f xs s = Inr s'" and "P s"
    and "\<And>x t t'. x \<in> set xs \<Longrightarrow> P t \<Longrightarrow> f x t = Inr t' \<Longrightarrow> P t'"
  shows "P s'"
  using assms
proof (induction xs arbitrary: s)
  case Nil
  then show ?case by simp
next
  case (Cons x xs)
  from Cons.prems(1) obtain t where t: "f x s = Inr t" and r: "fold_err f xs t = Inr s'"
    by (auto split: sum.splits)
  have Pt: "P t" using Cons.prems(3) [of x s t] Cons.prems(2) t by simp
  show ?case
  proof (rule Cons.IH [OF r Pt])
    fix y u u' assume "y \<in> set xs" "P u" "f y u = Inr u'"
    then show "P u'" using Cons.prems(3) [of y u u'] by simp
  qed
qed

lemma fold_err_error:
  assumes "fold_err f xs s = Inl e" and "P s"
    and "\<And>x t t'. x \<in> set xs \<Longrightarrow> P t \<Longrightarrow> f x t = Inr t' \<Longrightarrow> P t'"
    and "\<And>x t e'. x \<in> set xs \<Longrightarrow> P t \<Longrightarrow> f x t = Inl e' \<Longrightarrow> Q e'"
  shows "Q e"
  using assms
proof (induction xs arbitrary: s)
  case Nil
  then show ?case by simp
next
  case (Cons x xs)
  show ?case
  proof (cases "f x s")
    case (Inl e')
    then have "e' = e" using Cons.prems(1) by simp
    then show ?thesis using Cons.prems(4) [of x s e'] Cons.prems(2) Inl by simp
  next
    case (Inr t)
    then have r: "fold_err f xs t = Inl e" using Cons.prems(1) by simp
    have Pt: "P t" using Cons.prems(3) [of x s t] Cons.prems(2) Inr by simp
    show ?thesis
    proof (rule Cons.IH [OF r Pt])
      fix y u u' assume "y \<in> set xs" "P u" "f y u = Inr u'"
      then show "P u'" using Cons.prems(3) [of y u u'] by simp
    next
      fix y u e' assume "y \<in> set xs" "P u" "f y u = Inl e'"
      then show "Q e'" using Cons.prems(4) [of y u e'] by simp
    qed
  qed
qed

lemma GetConfilctCount_loop_bound:
  "GetConfilctCount_loop mark indices ret max_cnt mfc = -1 \<or>
   (indices = [] \<and> GetConfilctCount_loop mark indices ret max_cnt mfc = ret) \<or>
   (ret \<le> GetConfilctCount_loop mark indices ret max_cnt mfc \<and>
    GetConfilctCount_loop mark indices ret max_cnt mfc < max_cnt)"
proof (induction indices arbitrary: ret)
  case Nil
  show ?case by simp
next
  case (Cons idx indices)
  let ?ret' = "if mark ! idx \<noteq> 0 then ret + 1 else ret"
  show ?case
    using Cons.IH [of ?ret'] by (auto simp: Let_def)
qed

lemma GetConfilctCount_bound:
  "GetConfilctCount mark indices num_indices max_cnt mfc = -1 \<or>
   GetConfilctCount mark indices num_indices max_cnt mfc = 0 \<or>
   (0 \<le> GetConfilctCount mark indices num_indices max_cnt mfc \<and>
    GetConfilctCount mark indices num_indices max_cnt mfc < max_cnt)"
  unfolding GetConfilctCount_def
  using GetConfilctCount_loop_bound [of mark "take (nat num_indices) indices" 0 max_cnt mfc]
  by auto

lemma search1_result:
  assumes "search1 S st filtered nz indices sg = (bg, bc)"
  shows "(bg = -1 \<and> bc = -1) \<or>
         (\<exists>gid \<in> set sg. bg = int gid \<and> 0 \<le> bc \<and>
            bc \<le> single_val_max_conflict_cnt S - group_total_data_cnt st ! gid
                   + group_used_row_cnt st ! gid \<and> bc \<le> nz sdiv 2)"
  using assms
proof (induction sg)
  case Nil
  then show ?case by simp
next
  case (Cons gid sg)
  define rest where "rest = single_val_max_conflict_cnt S - group_total_data_cnt st ! gid
                   + group_used_row_cnt st ! gid"
  define cnt where "cnt = (if filtered then 0
      else GetConfilctCount (conflict_marks st ! gid) indices nz rest 1)"
  define ok where "ok \<longleftrightarrow> cnt \<ge> 0 \<and> cnt \<le> rest \<and> cnt \<le> nz sdiv 2"
  have eq: "search1 S st filtered nz indices (gid # sg) =
      (if ok then (int gid, cnt) else search1 S st filtered nz indices sg)"
    by (simp only: search1.simps Let_def cnt_def rest_def ok_def)
  have res: "(if ok then (int gid, cnt) else search1 S st filtered nz indices sg) = (bg, bc)"
    using Cons.prems unfolding eq .
  show ?case
  proof (cases ok)
    case True
    then have "bg = int gid" "bc = cnt" using res by simp_all
    then show ?thesis using True unfolding rest_def ok_def by auto
  next
    case False
    then have "search1 S st filtered nz indices sg = (bg, bc)"
      using res by simp
    from Cons.IH [OF this] show ?thesis by auto
  qed
qed

lemma select_search_groups_subset:
  assumes "Random_ok R" "select_search_groups R r avail = (sg, r')"
  shows "set sg \<subseteq> set avail"
proof (cases "avail = []")
  case True
  then show ?thesis using assms(2) by (simp add: select_search_groups_def)
next
  case False
  obtain indices r2 where smp:
    "Sample R r (int (length avail) - 1) (min (int (length avail) - 1) (max_search_group - 1))
       = (indices, r2)" by (cases "Sample R r (int (length avail) - 1) (min (int (length avail) - 1) (max_search_group - 1))")
  have sg: "sg = last avail # map (\<lambda>idx. avail ! idx) indices"
    using assms(2) False smp by (simp add: select_search_groups_def Let_def)
  have "\<forall>i \<in> set indices. int i < int (length avail) - 1"
    using assms(1) smp unfolding Random_ok_def by (metis fst_conv)
  then have "\<forall>i \<in> set indices. avail ! i \<in> set avail" by auto
  then show ?thesis using sg False by auto
qed

lemma select_search_groups_empty:
  "select_search_groups R r [] = ([], r)"
  by (simp add: select_search_groups_def)

lemma select_search_groups_nonempty:
  "select_search_groups R r avail = (sg, r') \<Longrightarrow> sg \<noteq> [] \<Longrightarrow> avail \<noteq> []"
  by (auto simp: select_search_groups_def)

lemma available_groups1_range:
  "gid \<in> set (available_groups1 S gpu st nz dbin) \<Longrightarrow> gid < length (features_in_group st)"
  by (simp add: available_groups1_def)

lemma available_groups2_range:
  "gid \<in> set (available_groups2 S gpu st nz dbin) \<Longrightarrow> gid < length (features_in_group st)"
  by (simp add: available_groups2_def)

text \<open>Characterisation of a successful first-round step.\<close>

lemma round1_step_cases:
  assumes "round1_step R bm si npc nsc S gpu fidx st = Inr st'"
  obtains (join) g cnt sg r where
      "select_search_groups R (rand st)
          (available_groups1 S gpu st (cur_non_zero_cnt npc nsc fidx) (delta_bin bm fidx)) = (sg, r)"
      "g \<in> set sg" "0 \<le> cnt"
      "cnt \<le> single_val_max_conflict_cnt S - group_total_data_cnt st ! g + group_used_row_cnt st ! g"
      "st' = join_group fidx (is_filtered_feature nsc fidx) (cur_non_zero_cnt npc nsc fidx)
               (if is_filtered_feature nsc fidx then [] else si ! fidx) (delta_bin bm fidx)
               g cnt (st\<lparr>rand := r\<rparr>)"
    | (new) r where "0 \<le> S"
      "new_group S fidx (is_filtered_feature nsc fidx) (cur_non_zero_cnt npc nsc fidx)
               (if is_filtered_feature nsc fidx then [] else si ! fidx) (delta_bin bm fidx)
               (st\<lparr>rand := r\<rparr>) = Inr st'"
proof -
  let ?filtered = "is_filtered_feature nsc fidx"
  let ?nz = "cur_non_zero_cnt npc nsc fidx"
  let ?dbin = "delta_bin bm fidx"
  let ?idx = "if ?filtered then [] else si ! fidx"
  obtain sg r where sel: "select_search_groups R (rand st)
          (available_groups1 S gpu st ?nz ?dbin) = (sg, r)"
    by (cases "select_search_groups R (rand st) (available_groups1 S gpu st ?nz ?dbin)")
  obtain bg bc where s1: "search1 S st ?filtered ?nz ?idx sg = (bg, bc)"
    by (cases "search1 S st ?filtered ?nz ?idx sg")
  show thesis
  proof (cases "bg \<ge> 0")
    case True
    from search1_result [OF s1] True obtain gid where g: "gid \<in> set sg" "bg = int gid" "0 \<le> bc"
      "bc \<le> single_val_max_conflict_cnt S - group_total_data_cnt st ! gid
                   + group_used_row_cnt st ! gid" by auto
    have "st' = join_group fidx ?filtered ?nz ?idx ?dbin gid bc (st\<lparr>rand := r\<rparr>)"
      using assms sel s1 True g(2) by (simp add: round1_step_def Let_def)
    then show ?thesis using join [OF sel g(1) g(3) g(4)] by simp
  next
    case False
    have ng: "new_group S fidx ?filtered ?nz ?idx ?dbin (st\<lparr>rand := r\<rparr>) = Inr st'"
      using assms sel s1 False by (simp add: round1_step_def Let_def)
    then have "0 \<le> S" by (auto simp: new_group_def split: if_splits)
    then show ?thesis using new ng by simp
  qed
qed

lemma fold_break_invariant:
  assumes "fold_break f xs s = Inr s'" and "P s"
    and "\<And>x t b t'. x \<in> set xs \<Longrightarrow> P t \<Longrightarrow> f x t = Inr (b, t') \<Longrightarrow> P t'"
  shows "P s'"
  using assms
proof (induction xs arbitrary: s)
  case Nil
  then show ?case by simp
next
  case (Cons x xs)
  from Cons.prems(1) obtain b t where t: "f x s = Inr (b, t)"
    by (cases "f x s") auto
  have Pt: "P t" using Cons.prems(3) [of x s b t] Cons.prems(2) t by simp
  show ?case
  proof (cases b)
    case True
    then show ?thesis using Cons.prems(1) t Pt by simp
  next
    case False
    then have r: "fold_break f xs t = Inr s'" using Cons.prems(1) t by simp
    show ?thesis
    proof (rule Cons.IH [OF r Pt])
      fix y u c u' assume "y \<in> set xs" "P u" "f y u = Inr (c, u')"
      then show "P u'" using Cons.prems(3) [of y u c u'] by simp
    qed
  qed
qed

lemma fold_break_error:
  assumes "fold_break f xs s = Inl e" and "P s"
    and "\<And>x t b t'. x \<in> set xs \<Longrightarrow> P t \<Longrightarrow> f x t = Inr (b, t') \<Longrightarrow> P t'"
    and "\<And>x t e'. x \<in> set xs \<Longrightarrow> P t \<Longrightarrow> f x t = Inl e' \<Longrightarrow> Q e'"
  shows "Q e"
  using assms
proof (induction xs arbitrary: s)
  case Nil
  then show ?case by simp
next
  case (Cons x xs)
  show ?case
  proof (cases "f x s")
    case (Inl e')
    then have "e' = e" using Cons.prems(1) by simp
    then show ?thesis using Cons.prems(4) [of x s e'] Cons.prems(2) Inl by simp
  next
    case (Inr p)
    obtain b t where p: "p = (b, t)" by (cases p)
    have Pt: "P t" using Cons.prems(3) [of x s b t] Cons.prems(2) Inr p by simp
    have r: "fold_break f xs t = Inl e" using Cons.prems(1) Inr p by (simp split: if_splits)
    show ?thesis
    proof (rule Cons.IH [OF r Pt])
      fix y u c u' assume "y \<in> set xs" "P u" "f y u = Inr (c, u')"
      then show "P u'" using Cons.prems(3) [of y u c u'] by simp
    next
      fix y u e' assume "y \<in> set xs" "P u" "f y u = Inl e'"
      then show "Q e'" using Cons.prems(4) [of y u e'] by simp
    qed
  qed
qed

lemma search2_cnt_le: "0 \<le> S \<Longrightarrow> search2_cnt S st filtered nz indices gid \<le> S"
proof -
  assume S: "0 \<le> S"
  let ?m = "if forced_single_val_group st ! gid
              then min S (single_val_max_conflict_cnt S - group_total_data_cnt st ! gid
                            + group_used_row_cnt st ! gid)
              else S"
  have "?m \<le> S" by simp
  then show ?thesis
    using S GetConfilctCount_bound [of "conflict_marks st ! gid" indices nz ?m
        max_concurrent_feature_per_group]
    unfolding search2_cnt_def by (cases filtered) auto
qed

lemma search2_iter_eq:
  "search2_iter S st filtered nz indices gid (bg, bc) =
     (if search2_cnt S st filtered nz indices gid < 0 then Inr (False, bg, bc)
      else case tie_break st gid (search2_cnt S st filtered nz indices gid) bg bc of
             Inl e \<Rightarrow> Inl e
           | Inr better \<Rightarrow>
               Inr (search2_cnt S st filtered nz indices gid = 0 \<and> forced_single_val_group st ! gid,
                    if better then int gid else bg,
                    if better then search2_cnt S st filtered nz indices gid else bc))"
  by (simp only: search2_iter_def search2_cnt_def Let_def prod.case)

lemma tie_break_error:
  "tie_break st gid cnt bg bc = Inl e \<Longrightarrow> e = NegativeIndex \<and> cnt = bc \<and> bg < 0"
  by (auto simp: tie_break_def split: if_splits)

lemma search2_iter_best_ok:
  assumes "gid \<in> set sg" "best_ok S sg best"
    "search2_iter S st filtered nz indices gid best = Inr (b, best')"
  shows "best_ok S sg best'"
proof -
  obtain bg bc where best: "best = (bg, bc)" by (cases best)
  let ?cnt = "search2_cnt S st filtered nz indices gid"
  show ?thesis
  proof (cases "?cnt < 0")
    case True
    then have "best' = best" using assms(3) unfolding best search2_iter_eq by simp
    then show ?thesis using assms(2) by simp
  next
    case False
    then obtain better where tb: "tie_break st gid ?cnt bg bc = Inr better"
      using assms(3) unfolding best search2_iter_eq by (auto split: sum.splits)
    have b': "best' = (if better then int gid else bg, if better then ?cnt else bc)"
      using assms(3) False tb unfolding best search2_iter_eq by simp
    show ?thesis
    proof (cases better)
      case True
      then show ?thesis using b' False assms(1) by (auto simp: best_ok_def)
    next
      case False
      then show ?thesis using b' assms(2) best by simp
    qed
  qed
qed

lemma search2_iter_no_error:
  assumes "0 \<le> S" "best_ok S sg best"
  shows "search2_iter S st filtered nz indices gid best \<noteq> Inl e"
proof
  assume err: "search2_iter S st filtered nz indices gid best = Inl e"
  obtain bg bc where best: "best = (bg, bc)" by (cases best)
  let ?cnt = "search2_cnt S st filtered nz indices gid"
  have nonneg: "\<not> ?cnt < 0" using err unfolding best search2_iter_eq by (auto split: if_splits)
  then have "tie_break st gid ?cnt bg bc = Inl e"
    using err unfolding best search2_iter_eq by (auto split: sum.splits)
  from tie_break_error [OF this] have "?cnt = bc" "bg < 0" by simp_all
  then have "bc = S + 1" using assms(2) best by (auto simp: best_ok_def)
  then show False using search2_cnt_le [OF assms(1), of st filtered nz indices gid] \<open>?cnt = bc\<close>
    by simp
qed

lemma search2_no_error:
  assumes "sg \<noteq> [] \<longrightarrow> 0 \<le> S"
  shows "search2 S st filtered nz indices sg \<noteq> Inl e"
proof
  assume err: "search2 S st filtered nz indices sg = Inl e"
  then have ne: "sg \<noteq> []" by (auto simp: search2_def)
  then have S: "0 \<le> S" using assms by simp
  have "False"
  proof (rule fold_break_error [where P = "best_ok S sg" and Q = "\<lambda>_. False",
        OF err [unfolded search2_def]])
    show "best_ok S sg (-1, S + 1)" by (simp add: best_ok_def)
  next
    fix x t b t' assume "x \<in> set sg" "best_ok S sg t"
      "search2_iter S st filtered nz indices x t = Inr (b, t')"
    then show "best_ok S sg t'" by (rule search2_iter_best_ok)
  next
    fix x t e' assume "x \<in> set sg" "best_ok S sg t"
      "search2_iter S st filtered nz indices x t = Inl e'"
    then show False using search2_iter_no_error [OF S] by blast
  qed
  then show False .
qed

lemma search2_result:
  assumes "search2 S st filtered nz indices sg = Inr best"
  shows "best_ok S sg best"
proof (rule fold_break_invariant [where P = "best_ok S sg", OF assms [unfolded search2_def]])
  show "best_ok S sg (-1, S + 1)" by (simp add: best_ok_def)
next
  fix x t b t' assume "x \<in> set sg" "best_ok S sg t"
    "search2_iter S st filtered nz indices x t = Inr (b, t')"
  then show "best_ok S sg t'" by (rule search2_iter_best_ok)
qed

lemma single_val_max_conflict_cnt_nonneg: "0 \<le> S \<Longrightarrow> 0 \<le> single_val_max_conflict_cnt S"
  by (simp add: single_val_max_conflict_cnt_def signed_divide_int_def sgn_if pos_imp_zdiv_nonneg_iff)

lemma new_group_Inr:
  "new_group S fidx filtered nz indices dbin st = Inr st' \<longleftrightarrow>
     0 \<le> S \<and> st' = st\<lparr>
        features_in_group := features_in_group st @ [[fidx]],
        conflict_marks := conflict_marks st @
          [if \<not> filtered then MarkUsed (replicate (nat S) 0) indices nz
           else replicate (nat S) 0],
        group_total_data_cnt := group_total_data_cnt st @ [nz],
        group_used_row_cnt := group_used_row_cnt st @ [nz],
        group_num_bin := group_num_bin st @ [1 + dbin]\<rparr>"
  by (auto simp: new_group_def)

lemma new_group_error: "new_group S fidx filtered nz indices dbin st = Inl e \<Longrightarrow> e = LengthError"
  by (auto simp: new_group_def split: if_splits)

lemma round1_step_inv:
  assumes "round1_inv S st" "round1_step R bm si npc nsc S gpu fidx st = Inr st'"
  shows "round1_inv S st'"
  using assms(2)
proof (cases rule: round1_step_cases)
  case (join g cnt sg r)
  have al: "groups_aligned st'" using assms(1) join(5)
    by (simp add: round1_inv_def groups_aligned_def join_group_def)
  have fl: "multi_val_group st' = []" "forced_single_val_group st' = []"
    using assms(1) join(5) by (simp_all add: round1_inv_def join_group_def)
  have ne: "features_in_group st' = [] \<or> 0 \<le> S"
    using assms(1) join(5) by (auto simp: round1_inv_def join_group_def)
  have len: "length (features_in_group st') = length (features_in_group st)"
    using join(5) by (simp add: join_group_def)
  have lens: "length (group_total_data_cnt st) = length (features_in_group st)"
    "length (group_used_row_cnt st) = length (features_in_group st)"
    using assms(1) by (simp_all add: round1_inv_def groups_aligned_def)
  have bd: "group_total_data_cnt st' ! gid - group_used_row_cnt st' ! gid
          \<le> single_val_max_conflict_cnt S" if "gid < length (features_in_group st')" for gid
  proof -
    have old: "group_total_data_cnt st ! gid - group_used_row_cnt st ! gid
          \<le> single_val_max_conflict_cnt S"
      using assms(1) that len by (simp add: round1_inv_def)
    show ?thesis
    proof (cases "gid = g")
      case True
      then show ?thesis using join(4,5) that len lens by (simp add: join_group_def)
    next
      case False
      then show ?thesis using join(5) old by (simp add: join_group_def)
    qed
  qed
  show ?thesis unfolding round1_inv_def using al fl ne bd by blast
next
  case (new r)
  from new(2) have st': "st' = st\<lparr>rand := r,
        features_in_group := features_in_group st @ [[fidx]],
        conflict_marks := conflict_marks st @
          [if \<not> is_filtered_feature nsc fidx
           then MarkUsed (replicate (nat S) 0) (if is_filtered_feature nsc fidx then [] else si ! fidx)
                  (cur_non_zero_cnt npc nsc fidx)
           else replicate (nat S) 0],
        group_total_data_cnt := group_total_data_cnt st @ [cur_non_zero_cnt npc nsc fidx],
        group_used_row_cnt := group_used_row_cnt st @ [cur_non_zero_cnt npc nsc fidx],
        group_num_bin := group_num_bin st @ [1 + delta_bin bm fidx]\<rparr>"
    by (simp add: new_group_Inr)
  have lens: "length (group_total_data_cnt st) = length (features_in_group st)"
    "length (group_used_row_cnt st) = length (features_in_group st)"
    using assms(1) by (simp_all add: round1_inv_def groups_aligned_def)
  have bd: "group_total_data_cnt st' ! gid - group_used_row_cnt st' ! gid
          \<le> single_val_max_conflict_cnt S" if "gid < length (features_in_group st')" for gid
  proof (cases "gid < length (features_in_group st)")
    case True
    then show ?thesis using assms(1) lens st' by (simp add: round1_inv_def nth_append)
  next
    case False
    then have "gid = length (features_in_group st)" using that st' by simp
    then show ?thesis using lens st' single_val_max_conflict_cnt_nonneg [OF new(1)]
      by (simp add: nth_append)
  qed
  show ?thesis unfolding round1_inv_def using assms(1) new(1) bd st'
    by (simp add: round1_inv_def groups_aligned_def)
qed

lemma FindGroups_init_inv: "round1_inv S (FindGroups_init R N)"
  by (simp add: round1_inv_def FindGroups_init_def groups_aligned_def)

lemma FindGroups_round1_inv:
  assumes "FindGroups_round1 R bm order si npc nsc S N gpu = Inr st"
  shows "round1_inv S st"
  by (rule fold_err_invariant [where P = "round1_inv S", OF assms [unfolded FindGroups_round1_def]
        FindGroups_init_inv]) (rule round1_step_inv)

lemma round1_step_error:
  "round1_step R bm si npc nsc S gpu fidx st = Inl e \<Longrightarrow> e = LengthError"
  by (auto simp: round1_step_def Let_def split: prod.splits if_splits dest: new_group_error)

lemma FindGroups_round1_error:
  assumes "FindGroups_round1 R bm order si npc nsc S N gpu = Inl e"
  shows "e = LengthError"
  by (rule fold_err_error [where P = "\<lambda>_. True" and Q = "\<lambda>e. e = LengthError",
        OF assms [unfolded FindGroups_round1_def]]) (auto dest: round1_step_error)

lemma dense_groups_range: "gid \<in> set (dense_groups S st) \<Longrightarrow> gid < length (features_in_group st)"
  by (simp add: dense_groups_def)

lemma keep_dense_groups_inv:
  assumes "round1_inv S st"
  shows "round2_inv S (keep_dense_groups S st)"
proof -
  let ?keep = "dense_groups S st"
  let ?st = "keep_dense_groups S st"
  have al: "groups_aligned ?st" "flags_aligned ?st"
    by (simp_all add: keep_dense_groups_def groups_aligned_def flags_aligned_def Let_def)
  have len: "length (features_in_group ?st) = length ?keep"
    by (simp add: keep_dense_groups_def Let_def)
  have bd: "conflicts_bounded S ?st"
    unfolding conflicts_bounded_def
  proof (intro allI impI)
    fix gid assume "gid < length (features_in_group ?st)"
    then have g: "gid < length ?keep" using len by simp
    then have "?keep ! gid < length (features_in_group st)"
      using dense_groups_range [of "?keep ! gid" S st] by simp
    then have "group_total_data_cnt st ! (?keep ! gid) - group_used_row_cnt st ! (?keep ! gid)
          \<le> single_val_max_conflict_cnt S"
      using assms by (simp add: round1_inv_def)
    then show "group_total_data_cnt ?st ! gid - group_used_row_cnt ?st ! gid
          \<le> single_val_max_conflict_cnt S"
      using g by (simp add: keep_dense_groups_def Let_def)
  qed
  have ne: "features_in_group ?st = [] \<or> 0 \<le> S"
    using assms by (auto simp: round1_inv_def keep_dense_groups_def dense_groups_def Let_def)
  show ?thesis unfolding round2_inv_def using al bd ne by blast
qed

lemma round2_step_cases:
  assumes "round2_step R bm si npc nsc S gpu fidx st = Inr st'"
  obtains (join) g cnt sg r where
      "select_search_groups R (rand st)
          (available_groups2 S gpu st (cur_non_zero_cnt npc nsc fidx) (delta_bin bm fidx)) = (sg, r)"
      "g \<in> set sg" "0 \<le> cnt"
      "st' = mark_multi_val S g
               (join_group fidx (is_filtered_feature nsc fidx) (cur_non_zero_cnt npc nsc fidx)
                 (if is_filtered_feature nsc fidx then [] else si ! fidx) (delta_bin bm fidx)
                 g cnt (st\<lparr>rand := r\<rparr>))"
    | (new) r st1 where "0 \<le> S"
      "new_group S fidx (is_filtered_feature nsc fidx) (cur_non_zero_cnt npc nsc fidx)
               (if is_filtered_feature nsc fidx then [] else si ! fidx) (delta_bin bm fidx)
               (st\<lparr>rand := r\<rparr>) = Inr st1"
      "st' = st1\<lparr>forced_single_val_group := forced_single_val_group st1 @ [False],
                 multi_val_group := multi_val_group st1 @ [False]\<rparr>"
proof -
  let ?filtered = "is_filtered_feature nsc fidx"
  let ?nz = "cur_non_zero_cnt npc nsc fidx"
  let ?dbin = "delta_bin bm fidx"
  let ?idx = "if ?filtered then [] else si ! fidx"
  obtain sg r where sel: "select_search_groups R (rand st)
          (available_groups2 S gpu st ?nz ?dbin) = (sg, r)"
    by (cases "select_search_groups R (rand st) (available_groups2 S gpu st ?nz ?dbin)")
  obtain bg bc where s2: "search2 S st ?filtered ?nz ?idx sg = Inr (bg, bc)"
    using assms sel by (cases "search2 S st ?filtered ?nz ?idx sg")
      (auto simp: round2_step_def Let_def)
  show thesis
  proof (cases "bg \<ge> 0")
    case True
    from search2_result [OF s2] True obtain gid where g: "gid \<in> set sg" "bg = int gid" "0 \<le> bc"
      by (auto simp: best_ok_def)
    have "st' = mark_multi_val S gid
               (join_group fidx ?filtered ?nz ?idx ?dbin gid bc (st\<lparr>rand := r\<rparr>))"
      using assms sel s2 True g(2) by (simp add: round2_step_def Let_def)
    then show ?thesis using join [OF sel g(1) g(3)] by simp
  next
    case False
    obtain st1 where ng: "new_group S fidx ?filtered ?nz ?idx ?dbin (st\<lparr>rand := r\<rparr>) = Inr st1"
      and st': "st' = st1\<lparr>forced_single_val_group := forced_single_val_group st1 @ [False],
                 multi_val_group := multi_val_group st1 @ [False]\<rparr>"
      using assms sel s2 False
      by (cases "new_group S fidx ?filtered ?nz ?idx ?dbin (st\<lparr>rand := r\<rparr>)")
         (auto simp: round2_step_def Let_def)
    from ng have "0 \<le> S" by (simp add: new_group_Inr)
    then show ?thesis using new ng st' by simp
  qed
qed

lemma round2_step_inv:
  assumes "round2_inv S st" "round2_step R bm si npc nsc S gpu fidx st = Inr st'"
  shows "round2_inv S st'"
  using assms(2)
proof (cases rule: round2_step_cases)
  case (join g cnt sg r)
  let ?j = "join_group fidx (is_filtered_feature nsc fidx) (cur_non_zero_cnt npc nsc fidx)
                 (if is_filtered_feature nsc fidx then [] else si ! fidx) (delta_bin bm fidx)
                 g cnt (st\<lparr>rand := r\<rparr>)"
  have lens: "length (group_total_data_cnt st) = length (features_in_group st)"
    "length (group_used_row_cnt st) = length (features_in_group st)"
    "length (multi_val_group st) = length (features_in_group st)"
    using assms(1) by (simp_all add: round2_inv_def groups_aligned_def flags_aligned_def)
  have al: "groups_aligned st'" "flags_aligned st'" using assms(1) join(4)
    by (simp_all add: round2_inv_def groups_aligned_def flags_aligned_def join_group_def
        mark_multi_val_def)
  have ne: "features_in_group st' = [] \<or> 0 \<le> S"
    using assms(1) join(4) by (auto simp: round2_inv_def join_group_def mark_multi_val_def)
  have len: "length (features_in_group st') = length (features_in_group st)"
    using join(4) by (simp add: join_group_def mark_multi_val_def)
  have cnts: "group_total_data_cnt st' = group_total_data_cnt ?j"
    "group_used_row_cnt st' = group_used_row_cnt ?j"
    using join(4) by (simp_all add: mark_multi_val_def)
  have bd: "group_total_data_cnt st' ! gid - group_used_row_cnt st' ! gid
          \<le> single_val_max_conflict_cnt S"
    if "gid < length (features_in_group st')" "\<not> multi_val_group st' ! gid" for gid
  proof (cases "gid = g")
    case True
    have "multi_val_group st' ! g \<or>
        group_total_data_cnt ?j ! g - group_used_row_cnt ?j ! g \<le> single_val_max_conflict_cnt S"
      using join(4) that(1) len lens True
      by (auto simp: mark_multi_val_def join_group_def)
    then show ?thesis using that(2) True cnts by simp
  next
    case False
    have "multi_val_group st' ! gid = multi_val_group st ! gid"
      using join(4) False by (simp add: mark_multi_val_def join_group_def)
    then have "group_total_data_cnt st ! gid - group_used_row_cnt st ! gid
          \<le> single_val_max_conflict_cnt S"
      using assms(1) that len by (simp add: round2_inv_def conflicts_bounded_def)
    then show ?thesis using False unfolding cnts by (simp add: join_group_def)
  qed
  show ?thesis unfolding round2_inv_def conflicts_bounded_def using al ne bd by blast
next
  case (new r st1)
  from new(2,3) have st': "st' = st\<lparr>rand := r,
        features_in_group := features_in_group st @ [[fidx]],
        conflict_marks := conflict_marks st @
          [if \<not> is_filtered_feature nsc fidx
           then MarkUsed (replicate (nat S) 0) (if is_filtered_feature nsc fidx then [] else si ! fidx)
                  (cur_non_zero_cnt npc nsc fidx)
           else replicate (nat S) 0],
        group_total_data_cnt := group_total_data_cnt st @ [cur_non_zero_cnt npc nsc fidx],
        group_used_row_cnt := group_used_row_cnt st @ [cur_non_zero_cnt npc nsc fidx],
        group_num_bin := group_num_bin st @ [1 + delta_bin bm fidx],
        forced_single_val_group := forced_single_val_group st @ [False],
        multi_val_group := multi_val_group st @ [False]\<rparr>"
    by (simp add: new_group_Inr)
  have lens: "length (group_total_data_cnt st) = length (features_in_group st)"
    "length (group_used_row_cnt st) = length (features_in_group st)"
    "length (multi_val_group st) = length (features_in_group st)"
    using assms(1) by (simp_all add: round2_inv_def groups_aligned_def flags_aligned_def)
  have bd: "group_total_data_cnt st' ! gid - group_used_row_cnt st' ! gid
          \<le> single_val_max_conflict_cnt S"
    if "gid < length (features_in_group st')" "\<not> multi_val_group st' ! gid" for gid
  proof (cases "gid < length (features_in_group st)")
    case True
    then show ?thesis using assms(1) lens st' that(2)
      by (simp add: round2_inv_def conflicts_bounded_def nth_append)
  next
    case False
    then have "gid = length (features_in_group st)" using that st' by simp
    then show ?thesis using lens st' single_val_max_conflict_cnt_nonneg [OF new(1)]
      by (simp add: nth_append)
  qed
  have al: "groups_aligned st'" "flags_aligned st'" using assms(1) st'
    by (simp_all add: round2_inv_def groups_aligned_def flags_aligned_def)
  show ?thesis unfolding round2_inv_def conflicts_bounded_def using al new(1) bd by blast
qed

lemma FindGroups_rounds_inv:
  assumes "FindGroups_rounds k R bm order si npc nsc S N gpu = Inr st"
  shows "round2_inv S st"
proof -
  from assms obtain st1 where r1: "FindGroups_round1 R bm order si npc nsc S N gpu = Inr st1"
    and r2: "fold_err (round2_step R bm si npc nsc S gpu) (take k (second_round_features S st1))
               (keep_dense_groups S st1) = Inr st"
    by (auto simp: FindGroups_rounds_def split: sum.splits)
  show ?thesis
    by (rule fold_err_invariant [where P = "round2_inv S", OF r2
          keep_dense_groups_inv [OF FindGroups_round1_inv [OF r1]]]) (rule round2_step_inv)
qed

lemma FindGroups_run_rounds:
  "FindGroups_run R bm order si npc nsc S N gpu =
     (case FindGroups_round1 R bm order si npc nsc S N gpu of
        Inl e \<Rightarrow> Inl e
      | Inr st \<Rightarrow> FindGroups_rounds (length (second_round_features S st)) R bm order si npc nsc S N gpu)"
  by (simp add: FindGroups_run_def FindGroups_rounds_def split: sum.splits)

lemma FindGroups_run_inv:
  assumes "FindGroups_run R bm order si npc nsc S N gpu = Inr st"
  shows "round2_inv S st"
  using assms FindGroups_rounds_inv unfolding FindGroups_run_rounds
  by (auto split: sum.splits)

lemma round2_step_error:
  assumes "round2_inv S st" "round2_step R bm si npc nsc S gpu fidx st = Inl e"
  shows "e = LengthError"
proof -
  let ?filtered = "is_filtered_feature nsc fidx"
  let ?nz = "cur_non_zero_cnt npc nsc fidx"
  let ?dbin = "delta_bin bm fidx"
  let ?idx = "if ?filtered then [] else si ! fidx"
  obtain sg r where sel: "select_search_groups R (rand st)
          (available_groups2 S gpu st ?nz ?dbin) = (sg, r)"
    by (cases "select_search_groups R (rand st) (available_groups2 S gpu st ?nz ?dbin)")
  have "sg \<noteq> [] \<longrightarrow> 0 \<le> S"
  proof
    assume "sg \<noteq> []"
    then have "available_groups2 S gpu st ?nz ?dbin \<noteq> []"
      using select_search_groups_nonempty [OF sel] by simp
    then obtain g where "g \<in> set (available_groups2 S gpu st ?nz ?dbin)"
      by (cases "available_groups2 S gpu st ?nz ?dbin") auto
    then have "g < length (features_in_group st)" by (rule available_groups2_range)
    then have "features_in_group st \<noteq> []" by auto
    then show "0 \<le> S" using assms(1) by (simp add: round2_inv_def)
  qed
  then obtain best where s2: "search2 S st ?filtered ?nz ?idx sg = Inr best"
    using search2_no_error [of sg S st ?filtered ?nz ?idx]
    by (cases "search2 S st ?filtered ?nz ?idx sg") auto
  obtain bg bc where best: "best = (bg, bc)" by (cases best)
  show ?thesis
    using assms(2) sel s2 best
    by (auto simp: round2_step_def Let_def split: if_splits sum.splits dest: new_group_error)
qed

text \<open>
  Claim C10. \<open>FindGroups\<close> never evaluates \<open>group_total_data_cnt[best_gid]\<close> with
  \<open>best_gid = -1\<close>: the failure \<open>NegativeIndex\<close>, which the model raises exactly there,
  is not a result of any run. While \<open>best_gid\<close> is \<open>-1\<close>, \<open>best_conflict_cnt\<close> is
  \<open>S + 1\<close>; a group is searched only when \<open>S \<ge> 0\<close>, and then every count is at most
  \<open>S\<close> (\<open>search2_cnt_le\<close>: the count is \<open>0\<close> for a filtered feature, and
  \<open>GetConfilctCount\<close> returns \<open>-1\<close>, \<open>0\<close> or a value below its bound
  \<open>rest_max_cnt \<le> S\<close>), so the first operand \<open>cnt < best_conflict_cnt\<close> decides.
\<close>

theorem FindGroups_never_indexes_with_sentinel:
  "FindGroups_run R bin_mappers find_order sample_indices num_per_col num_sample_col
     total_sample_cnt num_data is_use_gpu \<noteq> Inl NegativeIndex"
proof
  assume err: "FindGroups_run R bin_mappers find_order sample_indices num_per_col num_sample_col
     total_sample_cnt num_data is_use_gpu = Inl NegativeIndex"
  show False
  proof (cases "FindGroups_round1 R bin_mappers find_order sample_indices num_per_col num_sample_col
     total_sample_cnt num_data is_use_gpu")
    case (Inl e)
    then show ?thesis using err FindGroups_round1_error [OF Inl] by (simp add: FindGroups_run_def)
  next
    case (Inr st1)
    then have r2: "fold_err (round2_step R bin_mappers sample_indices num_per_col num_sample_col
        total_sample_cnt is_use_gpu) (second_round_features total_sample_cnt st1)
        (keep_dense_groups total_sample_cnt st1) = Inl NegativeIndex"
      using err by (simp add: FindGroups_run_def)
    have "NegativeIndex = LengthError"
      by (rule fold_err_error [where P = "round2_inv total_sample_cnt"
            and Q = "\<lambda>e. e = LengthError", OF r2
            keep_dense_groups_inv [OF FindGroups_round1_inv [OF Inr]]])
         (auto intro: round2_step_inv round2_step_error)
    then show ?thesis by simp
  qed
qed

lemma delta_bin_nonneg: "1 \<le> num_bin (the (bm ! f)) \<Longrightarrow> 0 \<le> delta_bin bm f"
  by (simp add: delta_bin_def)

lemma join_group_bins_inv:
  assumes "bins_inv order st" "fidx \<in> set order" "0 \<le> dbin"
  shows "bins_inv order (join_group fidx filtered nz indices dbin g cnt (st\<lparr>rand := r\<rparr>))"
proof -
  let ?st = "join_group fidx filtered nz indices dbin g cnt (st\<lparr>rand := r\<rparr>)"
  have lens: "length (group_num_bin st) = length (features_in_group st)"
    using assms(1) by (simp add: bins_inv_def groups_aligned_def)
  have al: "groups_aligned ?st" using assms(1)
    by (simp add: bins_inv_def groups_aligned_def join_group_def)
  have len: "length (features_in_group ?st) = length (features_in_group st)"
    by (simp add: join_group_def)
  have nb: "0 \<le> group_num_bin ?st ! gid" if "gid < length (features_in_group ?st)" for gid
    using assms(1,3) that lens len
    by (cases "gid = g") (auto simp: bins_inv_def join_group_def)
  have fs: "set (features_in_group ?st ! gid) \<subseteq> set order"
    if "gid < length (features_in_group ?st)" for gid
    using assms(1,2) that len
    by (cases "gid = g") (auto simp: bins_inv_def join_group_def)
  show ?thesis unfolding bins_inv_def using al nb fs by blast
qed

lemma new_group_bins_inv:
  assumes "bins_inv order st" "fidx \<in> set order" "0 \<le> dbin"
    "new_group S fidx filtered nz indices dbin (st\<lparr>rand := r\<rparr>) = Inr st1"
  shows "bins_inv order st1"
proof -
  have st1: "st1 = st\<lparr>rand := r,
        features_in_group := features_in_group st @ [[fidx]],
        conflict_marks := conflict_marks st @
          [if \<not> filtered then MarkUsed (replicate (nat S) 0) indices nz
           else replicate (nat S) 0],
        group_total_data_cnt := group_total_data_cnt st @ [nz],
        group_used_row_cnt := group_used_row_cnt st @ [nz],
        group_num_bin := group_num_bin st @ [1 + dbin]\<rparr>"
    using assms(4) by (simp add: new_group_Inr)
  have lens: "length (group_num_bin st) = length (features_in_group st)"
    using assms(1) by (simp add: bins_inv_def groups_aligned_def)
  have al: "groups_aligned st1" using assms(1) st1
    by (simp add: bins_inv_def groups_aligned_def)
  have nb: "0 \<le> group_num_bin st1 ! gid" if "gid < length (features_in_group st1)" for gid
    using assms(1,3) that lens st1
    by (cases "gid < length (features_in_group st)") (auto simp: bins_inv_def nth_append)
  have fs: "set (features_in_group st1 ! gid) \<subseteq> set order"
    if "gid < length (features_in_group st1)" for gid
    using assms(1,2) that st1
    by (cases "gid < length (features_in_group st)") (auto simp: bins_inv_def nth_append)
  show ?thesis unfolding bins_inv_def using al nb fs by blast
qed

lemma round1_step_bins_inv:
  assumes "bins_inv order st" "fidx \<in> set order" "0 \<le> delta_bin bm fidx"
    "round1_step R bm si npc nsc S gpu fidx st = Inr st'"
  shows "bins_inv order st'"
  using assms(4)
proof (cases rule: round1_step_cases)
  case (join g cnt sg r)
  show ?thesis unfolding join(5) using assms(1-3) by (rule join_group_bins_inv)
next
  case (new r)
  show ?thesis using assms(1-3) new(2) by (rule new_group_bins_inv)
qed

lemma mark_multi_val_bins_inv: "bins_inv order st \<Longrightarrow> bins_inv order (mark_multi_val S g st)"
  by (simp add: bins_inv_def groups_aligned_def mark_multi_val_def)

lemma round2_step_bins_inv:
  assumes "bins_inv order st" "fidx \<in> set order" "0 \<le> delta_bin bm fidx"
    "round2_step R bm si npc nsc S gpu fidx st = Inr st'"
  shows "bins_inv order st'"
  using assms(4)
proof (cases rule: round2_step_cases)
  case (join g cnt sg r)
  show ?thesis unfolding join(4)
    by (rule mark_multi_val_bins_inv) (use assms(1-3) in \<open>rule join_group_bins_inv\<close>)
next
  case (new r st1)
  have "bins_inv order st1" using assms(1-3) new(2) by (rule new_group_bins_inv)
  then show ?thesis unfolding new(3) by (simp add: bins_inv_def groups_aligned_def)
qed

lemma keep_dense_groups_bins_inv:
  assumes "bins_inv order st"
  shows "bins_inv order (keep_dense_groups S st)"
proof -
  let ?keep = "dense_groups S st"
  have r: "?keep ! gid < length (features_in_group st)" if "gid < length ?keep" for gid
    using dense_groups_range [of "?keep ! gid" S st] that by simp
  show ?thesis
    using assms r
    by (simp add: bins_inv_def groups_aligned_def keep_dense_groups_def Let_def)
qed

lemma second_round_features_subset:
  assumes "bins_inv order st"
  shows "set (second_round_features S st) \<subseteq> set order"
  using assms by (auto simp: second_round_features_def bins_inv_def)

lemma FindGroups_rounds_bins_inv:
  assumes "FindGroups_rounds k R bm order si npc nsc S N gpu = Inr st"
    and nb: "\<forall>f \<in> set order. 1 \<le> num_bin (the (bm ! f))"
  shows "bins_inv order st"
proof -
  from assms obtain st1 where r1: "fold_err (round1_step R bm si npc nsc S gpu) order
        (FindGroups_init R N) = Inr st1"
    and r2: "fold_err (round2_step R bm si npc nsc S gpu) (take k (second_round_features S st1))
               (keep_dense_groups S st1) = Inr st"
    by (auto simp: FindGroups_rounds_def FindGroups_round1_def split: sum.splits)
  have i0: "bins_inv order (FindGroups_init R N)"
    by (simp add: bins_inv_def FindGroups_init_def groups_aligned_def)
  have i1: "bins_inv order st1"
    by (rule fold_err_invariant [where P = "bins_inv order", OF r1 i0])
       (use nb in \<open>auto intro: round1_step_bins_inv delta_bin_nonneg\<close>)
  have sub: "set (take k (second_round_features S st1)) \<subseteq> set order"
    using second_round_features_subset [OF i1, of S] set_take_subset by fastforce
  show ?thesis
    by (rule fold_err_invariant [where P = "bins_inv order", OF r2
          keep_dense_groups_bins_inv [OF i1]])
       (use nb sub in \<open>auto intro: round2_step_bins_inv delta_bin_nonneg\<close>)
qed

lemma mark_multi_val_features:
  "features_in_group (mark_multi_val S g st) = features_in_group st"
  by (simp add: mark_multi_val_def)

lemma join_group_features:
  "features_in_group (join_group fidx filtered nz indices dbin g cnt st) =
     (features_in_group st)[g := features_in_group st ! g @ [fidx]]"
  by (simp add: join_group_def)

lemma available_groups2_bound:
  assumes "gid \<in> set (available_groups2 S gpu st nz dbin)" "multi_val_group st ! gid"
  shows "group_num_bin st ! gid + (group_num_bin st ! gid + dbin) \<le> max_bin_per_multi_val_group"
  using assms by (simp add: available_groups2_def Let_def)

text \<open>
  Claim C4. Let \<open>st\<close> be the state at the head of an iteration of the second round
  (\<open>FindGroups_rounds k\<close>), for bin mappers with at least one bin. A group that is already
  multi-valued is among the candidates \<open>available_groups2\<close> for a feature only if
  \<open>num_bin[g] + \<Delta>bin(f) \<le> 2 ^ 14\<close>; and, for a generator that keeps its contract, a
  feature that the iteration adds to an existing multi-valued group satisfies this bound
  in \<open>st\<close>. (The test of the source counts \<open>group_num_bin[gid]\<close> twice, so it is
  stricter than the bound.)
\<close>

theorem FindGroups_multi_val_candidate_bins:
  assumes "FindGroups_rounds k R bin_mappers find_order sample_indices num_per_col num_sample_col
             total_sample_cnt num_data is_use_gpu = Inr st"
    and "\<forall>f \<in> set find_order. 1 \<le> num_bin (the (bin_mappers ! f))"
  shows "(\<forall>gid \<in> set (available_groups2 total_sample_cnt is_use_gpu st nz (delta_bin bin_mappers fidx)).
            multi_val_group st ! gid \<longrightarrow>
            group_num_bin st ! gid + delta_bin bin_mappers fidx \<le> 2 ^ 14)
       \<and> (Random_ok R \<longrightarrow>
            (\<forall>st' gid. round2_step R bin_mappers sample_indices num_per_col num_sample_col
                   total_sample_cnt is_use_gpu fidx st = Inr st' \<and>
                 gid < length (features_in_group st) \<and>
                 features_in_group st' ! gid \<noteq> features_in_group st ! gid \<and>
                 multi_val_group st ! gid \<longrightarrow>
                 group_num_bin st ! gid + delta_bin bin_mappers fidx \<le> 2 ^ 14))"
proof -
  have inv: "bins_inv find_order st" using assms by (rule FindGroups_rounds_bins_inv)
  have cand: "group_num_bin st ! gid + delta_bin bin_mappers fidx \<le> 2 ^ 14"
    if "gid \<in> set (available_groups2 total_sample_cnt is_use_gpu st nz' (delta_bin bin_mappers fidx))"
      "multi_val_group st ! gid" for gid nz'
  proof -
    have "gid < length (features_in_group st)" using that(1) by (rule available_groups2_range)
    then have "0 \<le> group_num_bin st ! gid" using inv by (simp add: bins_inv_def)
    then show ?thesis using available_groups2_bound [OF that]
      by (simp add: max_bin_per_multi_val_group_def)
  qed
  have acc: "group_num_bin st ! gid + delta_bin bin_mappers fidx \<le> 2 ^ 14"
    if ok: "Random_ok R"
      and step: "round2_step R bin_mappers sample_indices num_per_col num_sample_col
                   total_sample_cnt is_use_gpu fidx st = Inr st'"
      and g: "gid < length (features_in_group st)"
      and ch: "features_in_group st' ! gid \<noteq> features_in_group st ! gid"
      and mv: "multi_val_group st ! gid" for st' gid
    using step
  proof (cases rule: round2_step_cases)
    case (join g' cnt sg r)
    have "gid = g'" using ch unfolding join(4)
      by (cases "gid = g'") (simp_all add: mark_multi_val_features join_group_features)
    then have "gid \<in> set (available_groups2 total_sample_cnt is_use_gpu st
        (cur_non_zero_cnt num_per_col num_sample_col fidx) (delta_bin bin_mappers fidx))"
      using select_search_groups_subset [OF ok join(1)] join(2) by auto
    then show ?thesis using mv by (rule cand)
  next
    case (new r st1)
    have "features_in_group st' = features_in_group st @ [[fidx]]"
      using new(2,3) by (simp add: new_group_Inr)
    then show ?thesis using ch g by (simp add: nth_append)
  qed
  show ?thesis using cand acc by blast
qed

lemma counter_Random_ok: "Random_ok counter_Random"
proof -
  have "lower + int r mod (upper - lower) < upper" if "lower < upper" for lower upper :: int and r :: nat
  proof -
    have "int r mod (upper - lower) < upper - lower" using that by simp
    then show ?thesis by simp
  qed
  then show ?thesis by (auto simp: Random_ok_def counter_Random_def)
qed

theorem FindGroups_multi_val_candidate_bins_witness:
  "FindGroups_rounds 2 counter_Random example_mappers [0, 1, 2] example_indices [2, 2, 1] 3 4 4 False
     = Inr multi_val_state \<and>
   1 \<le> num_bin two_bin_mapper \<and>
   0 \<in> set (available_groups2 4 False multi_val_state 1 (delta_bin example_mappers 2)) \<and>
   multi_val_group multi_val_state ! 0 \<and>
   group_num_bin multi_val_state ! 0 + delta_bin example_mappers 2 \<le> 2 ^ 14"
proof -
  have run: "FindGroups_rounds 2 counter_Random example_mappers [0, 1, 2] example_indices
      [2, 2, 1] 3 4 4 False = Inr multi_val_state"
    by code_simp
  have nb: "\<forall>f \<in> set [0, 1, 2]. 1 \<le> num_bin (the (example_mappers ! f))"
    by (simp add: example_mappers_def two_bin_mapper_def)
  have cand: "0 \<in> set (available_groups2 4 False multi_val_state 1 (delta_bin example_mappers 2))"
    by code_simp
  have mv: "multi_val_group multi_val_state ! 0" by (simp add: multi_val_state_def)
  have "group_num_bin multi_val_state ! 0 + delta_bin example_mappers 2 \<le> 2 ^ 14"
    using FindGroups_multi_val_candidate_bins [OF run nb, of 1 2] cand mv by blast
  then show ?thesis using run cand mv by (simp add: two_bin_mapper_def)
qed

text \<open>
  With a generator that keeps its contract, every feature of \<open>find_order\<close> ends up in
  exactly one group.
\<close>

lemma mset_concat_update_append:
  assumes "i < length xss"
  shows "mset (concat (xss[i := xss ! i @ [a]])) = mset (concat xss) + {#a#}"
proof -
  define A where "A = concat (take i xss)"
  define B where "B = concat (drop (Suc i) xss)"
  have "concat (xss[i := xss ! i @ [a]])
      = concat (take i xss @ (xss ! i @ [a]) # drop (Suc i) xss)"
    using assms by (simp only: upd_conv_take_nth_drop)
  then have new: "concat (xss[i := xss ! i @ [a]]) = A @ (xss ! i @ [a]) @ B"
    by (simp add: A_def B_def)
  have "concat xss = concat (take i xss @ xss ! i # drop (Suc i) xss)"
    using assms by (simp only: id_take_nth_drop [symmetric])
  then have old: "concat xss = A @ xss ! i @ B"
    by (simp only: concat_append concat.simps A_def B_def)
  show ?thesis unfolding new old by simp
qed

lemma mset_concat_partition:
  "mset (concat (map f (filter P xs))) + mset (concat (map f (filter (\<lambda>x. \<not> P x) xs)))
     = mset (concat (map f xs))"
  by (induction xs) auto

lemma fold_err_mset:
  assumes "fold_err f xs s = Inr s'"
    and "\<And>x t t'. f x t = Inr t' \<Longrightarrow> m t' = m t + {#x#}"
  shows "m s' = m s + mset xs"
  using assms(1)
proof (induction xs arbitrary: s)
  case Nil
  then show ?case by simp
next
  case (Cons x xs)
  from Cons.prems obtain t where t: "f x s = Inr t" and r: "fold_err f xs t = Inr s'"
    by (auto split: sum.splits)
  show ?case using Cons.IH [OF r] assms(2) [OF t] by simp
qed

lemma round1_step_bundled:
  assumes "Random_ok R" "round1_step R bm si npc nsc S gpu fidx st = Inr st'"
  shows "bundled st' = bundled st + {#fidx#}"
  using assms(2)
proof (cases rule: round1_step_cases)
  case (join g cnt sg r)
  have "g \<in> set (available_groups1 S gpu st (cur_non_zero_cnt npc nsc fidx) (delta_bin bm fidx))"
    using select_search_groups_subset [OF assms(1) join(1)] join(2) by auto
  then have "g < length (features_in_group st)" by (rule available_groups1_range)
  then show ?thesis unfolding join(5) bundled_def join_group_features
    by (simp add: mset_concat_update_append)
next
  case (new r)
  then show ?thesis by (simp add: new_group_Inr bundled_def)
qed

lemma round2_step_bundled:
  assumes "Random_ok R" "round2_step R bm si npc nsc S gpu fidx st = Inr st'"
  shows "bundled st' = bundled st + {#fidx#}"
  using assms(2)
proof (cases rule: round2_step_cases)
  case (join g cnt sg r)
  have "g \<in> set (available_groups2 S gpu st (cur_non_zero_cnt npc nsc fidx) (delta_bin bm fidx))"
    using select_search_groups_subset [OF assms(1) join(1)] join(2) by auto
  then have "g < length (features_in_group st)" by (rule available_groups2_range)
  then show ?thesis unfolding join(4) bundled_def mark_multi_val_features join_group_features
    by (simp add: mset_concat_update_append)
next
  case (new r st1)
  then show ?thesis by (simp add: new_group_Inr bundled_def)
qed

lemma keep_dense_groups_bundled:
  "bundled (keep_dense_groups S st) + mset (second_round_features S st) = bundled st"
proof -
  have "mset (concat (map (\<lambda>gid. features_in_group st ! gid) [0..<length (features_in_group st)]))
      = mset (concat (features_in_group st))"
    by (simp add: map_nth)
  then show ?thesis
    unfolding bundled_def keep_dense_groups_def second_round_features_def dense_groups_def Let_def
    using mset_concat_partition [of "\<lambda>gid. features_in_group st ! gid"
        "\<lambda>gid. is_dense (group_used_row_cnt st ! gid) S" "[0..<length (features_in_group st)]"]
    by simp
qed

lemma FindGroups_run_bundled:
  assumes "Random_ok R" "FindGroups_run R bm order si npc nsc S N gpu = Inr st"
  shows "mset (concat (features_in_group st)) = mset order"
proof -
  from assms(2) obtain st1 where r1: "fold_err (round1_step R bm si npc nsc S gpu) order
        (FindGroups_init R N) = Inr st1"
    and r2: "fold_err (round2_step R bm si npc nsc S gpu) (second_round_features S st1)
               (keep_dense_groups S st1) = Inr st"
    by (auto simp: FindGroups_run_def FindGroups_round1_def split: sum.splits)
  have b1: "bundled st1 = bundled (FindGroups_init R N) + mset order"
    by (rule fold_err_mset [OF r1]) (rule round1_step_bundled [OF assms(1)])
  have b2: "bundled st = bundled (keep_dense_groups S st1) + mset (second_round_features S st1)"
    by (rule fold_err_mset [OF r2]) (rule round2_step_bundled [OF assms(1)])
  have "bundled (FindGroups_init R N) = {#}" by (simp add: bundled_def FindGroups_init_def)
  then show ?thesis using b1 b2 keep_dense_groups_bundled [of S st1] by (simp add: bundled_def)
qed

lemma FindGroups_partition:
  assumes "Random_ok R" "FindGroups R bm order si npc nsc S N gpu = Inr (groups, flags)"
  shows "mset (concat groups) = mset order" and "length flags = length groups"
proof -
  from assms(2) obtain st where run: "FindGroups_run R bm order si npc nsc S N gpu = Inr st"
    and g: "groups = features_in_group st" and f: "flags = multi_val_group st"
    by (auto simp: FindGroups_def split: sum.splits)
  show "mset (concat groups) = mset order" unfolding g using assms(1) run by (rule FindGroups_run_bundled)
  show "length flags = length groups" unfolding g f
    using FindGroups_run_inv [OF run] by (simp add: round2_inv_def flags_aligned_def)
qed

text \<open>Sample rows, marks and counters.\<close>

lemma GetConfilctCount_loop_count:
  assumes "0 \<le> ret" "0 \<le> GetConfilctCount_loop mark idxs ret max_cnt mfc"
  shows "GetConfilctCount_loop mark idxs ret max_cnt mfc
           = ret + int (length (filter (\<lambda>r. mark ! r \<noteq> 0) idxs)) \<and>
         (\<forall>r \<in> set idxs. mark ! r \<noteq> 0 \<longrightarrow> int (mark ! r) + 1 \<le> mfc)"
  using assms
proof (induction idxs arbitrary: ret)
  case Nil
  then show ?case by simp
next
  case (Cons idx idxs)
  define ret' where "ret' = (if mark ! idx \<noteq> 0 then ret + 1 else ret)"
  define stop where "stop \<longleftrightarrow> mark ! idx \<noteq> 0 \<and> int (mark ! idx) + 1 > mfc"
  have unf: "GetConfilctCount_loop mark (idx # idxs) ret max_cnt mfc =
      (if stop then -1 else if ret' \<ge> max_cnt then -1
       else GetConfilctCount_loop mark idxs ret' max_cnt mfc)"
    by (simp only: GetConfilctCount_loop.simps Let_def ret'_def stop_def)
  have nb: "\<not> stop"
  proof
    assume stop
    then have "GetConfilctCount_loop mark (idx # idxs) ret max_cnt mfc = -1"
      unfolding unf by simp
    then show False using Cons.prems(2) by simp
  qed
  have nc: "\<not> ret' \<ge> max_cnt"
  proof
    assume "ret' \<ge> max_cnt"
    then have "GetConfilctCount_loop mark (idx # idxs) ret max_cnt mfc = -1"
      unfolding unf by simp
    then show False using Cons.prems(2) by simp
  qed
  have eq: "GetConfilctCount_loop mark (idx # idxs) ret max_cnt mfc
      = GetConfilctCount_loop mark idxs ret' max_cnt mfc"
    unfolding unf using nb nc by simp
  have r': "0 \<le> ret'" using Cons.prems(1) by (simp add: ret'_def)
  have nn: "0 \<le> GetConfilctCount_loop mark idxs ret' max_cnt mfc"
    using Cons.prems(2) unfolding eq .
  note IH = Cons.IH [OF r' nn]
  have a: "GetConfilctCount_loop mark (idx # idxs) ret max_cnt mfc
           = ret + int (length (filter (\<lambda>r. mark ! r \<noteq> 0) (idx # idxs)))"
    unfolding eq using IH by (simp add: ret'_def)
  have b0: "mark ! idx \<noteq> 0 \<longrightarrow> int (mark ! idx) + 1 \<le> mfc"
    using nb unfolding stop_def by linarith
  have b: "\<forall>r \<in> set (idx # idxs). mark ! r \<noteq> 0 \<longrightarrow> int (mark ! r) + 1 \<le> mfc"
    using IH b0 by simp
  show ?case using a b by (rule conjI)
qed

lemma fold_mark:
  assumes "distinct rows" "\<forall>r \<in> set rows. r < length (m :: nat list)"
  shows "length (fold (\<lambda>idx m. m[idx := (m ! idx + 1) mod 256]) rows m) = length m \<and>
         (\<forall>r < length m. fold (\<lambda>idx m. m[idx := (m ! idx + 1) mod 256]) rows m ! r
            = (if r \<in> set rows then (m ! r + 1) mod 256 else m ! r))"
  using assms
proof (induction rows arbitrary: m)
  case Nil
  then show ?case by simp
next
  case (Cons a rows)
  let ?m' = "m[a := (m ! a + 1) mod 256]"
  have d: "distinct rows" "a \<notin> set rows" using Cons.prems(1) by simp_all
  have r: "\<forall>r \<in> set rows. r < length ?m'" using Cons.prems(2) by simp
  from Cons.IH [OF d(1) r] have IH:
    "length (fold (\<lambda>idx m. m[idx := (m ! idx + 1) mod 256]) rows ?m') = length m"
    "\<And>r. r < length m \<Longrightarrow> fold (\<lambda>idx m. m[idx := (m ! idx + 1) mod 256]) rows ?m' ! r
            = (if r \<in> set rows then (?m' ! r + 1) mod 256 else ?m' ! r)"
    by simp_all
  have "fold (\<lambda>idx m. m[idx := (m ! idx + 1) mod 256]) (a # rows) m ! r
            = (if r \<in> set (a # rows) then (m ! r + 1) mod 256 else m ! r)"
    if "r < length m" for r
  proof (cases "r = a")
    case True
    then show ?thesis using IH(2) [OF that] d(2) that by simp
  next
    case False
    then show ?thesis using IH(2) [OF that] by simp
  qed
  then show ?case using IH(1) by simp
qed

lemma touch_cnt_append:
  "touch_cnt si npc nsc (grp @ [f]) r
     = touch_cnt si npc nsc grp r + (if r \<in> set (sample_rows si npc nsc f) then 1 else 0)"
  by (simp add: touch_cnt_def)

lemma sum_indicator_rows:
  assumes "distinct rows" "\<forall>r \<in> set rows. r < (n :: nat)"
  shows "(\<Sum>r < n. if r \<in> set rows then 1 else 0 :: nat) = length rows"
proof -
  have "(\<Sum>r < n. if r \<in> set rows then 1 else 0 :: nat) = (\<Sum>r \<in> {..<n} \<inter> set rows. 1)"
    by (subst sum.inter_restrict) simp_all
  also have "{..<n} \<inter> set rows = set rows" using assms(2) by auto
  finally show ?thesis using assms(1) by (simp add: distinct_card)
qed

lemma card_union_rows:
  assumes "finite A" "distinct (rows :: nat list)"
  shows "int (card (A \<union> set rows))
           = int (card A) + (int (length rows) - int (length (filter (\<lambda>r. r \<in> A) rows)))"
proof -
  have s: "A \<inter> set rows = set (filter (\<lambda>r. r \<in> A) rows)" by auto
  have "card (set (filter (\<lambda>r. r \<in> A) rows)) = length (filter (\<lambda>r. r \<in> A) rows)"
    by (rule distinct_card) (simp add: assms(2))
  then have i: "card (A \<inter> set rows) = length (filter (\<lambda>r. r \<in> A) rows)"
    unfolding s .
  have u: "card A + card (set rows) = card (A \<union> set rows) + card (A \<inter> set rows)"
    using assms(1) by (rule card_Un_Int) simp
  have r: "card (set rows) = length rows" using assms(2) by (rule distinct_card)
  show ?thesis using i u r by linarith
qed

lemma group_ok_append:
  assumes ok: "group_ok si npc nsc S grp marks total_cnt used_cnt"
    and rows: "rows = sample_rows si npc nsc f" "distinct rows" "\<forall>r \<in> set rows. r < nat S"
    and free: "\<forall>r \<in> set rows. marks ! r < 64"
  shows "group_ok si npc nsc S (grp @ [f])
           (fold (\<lambda>idx m. m[idx := (m ! idx + 1) mod 256]) rows marks)
           (total_cnt + int (length rows))
           (used_cnt + (int (length rows) - int (length (filter (\<lambda>r. marks ! r \<noteq> 0) rows))))"
proof -
  let ?c = "touch_cnt si npc nsc grp"
  let ?c' = "touch_cnt si npc nsc (grp @ [f])"
  let ?m' = "fold (\<lambda>idx m. m[idx := (m ! idx + 1) mod 256]) rows marks"
  have len: "length marks = nat S" and mk: "\<And>r. r < nat S \<Longrightarrow> marks ! r = ?c r"
    and le: "\<And>r. r < nat S \<Longrightarrow> marks ! r \<le> 64"
    and tot: "total_cnt = int (\<Sum>r < nat S. ?c r)"
    and us: "used_cnt = int (card {r. r < nat S \<and> 0 < ?c r})"
    using ok unfolding group_ok_def by blast+
  have c': "?c' r = ?c r + (if r \<in> set rows then 1 else 0)" for r
    by (simp add: touch_cnt_append rows(1))
  have rl: "\<forall>r \<in> set rows. r < length marks" using rows(3) len by simp
  note fm = fold_mark [OF rows(2) rl]
  have l': "length ?m' = nat S" using fm len by simp
  have m': "?m' ! r = ?c' r \<and> ?m' ! r \<le> 64" if "r < nat S" for r
  proof (cases "r \<in> set rows")
    case True
    then have "marks ! r < 64" using free by simp
    then have "(marks ! r + 1) mod 256 = marks ! r + 1" by simp
    then show ?thesis using fm that len True mk [OF that] c' \<open>marks ! r < 64\<close> by simp
  next
    case False
    then show ?thesis using fm that len mk [OF that] le [OF that] c' by simp
  qed
  have "(\<Sum>r < nat S. ?c' r) = (\<Sum>r < nat S. ?c r) + (\<Sum>r < nat S. if r \<in> set rows then 1 else 0)"
    by (simp add: c' sum.distrib)
  then have t': "total_cnt + int (length rows) = int (\<Sum>r < nat S. ?c' r)"
    using tot sum_indicator_rows [OF rows(2,3)] by simp
  let ?A = "{r. r < nat S \<and> 0 < ?c r}"
  have fin: "finite ?A" by simp
  have "{r. r < nat S \<and> 0 < ?c' r} = ?A \<union> set rows"
    using rows(3) by (auto simp: c')
  moreover have "filter (\<lambda>r. r \<in> ?A) rows = filter (\<lambda>r. marks ! r \<noteq> 0) rows"
    by (rule filter_cong) (use rows(3) mk in auto)
  ultimately have u': "used_cnt + (int (length rows) - int (length (filter (\<lambda>r. marks ! r \<noteq> 0) rows)))
      = int (card {r. r < nat S \<and> 0 < ?c' r})"
    using card_union_rows [OF fin rows(2)] us by simp
  show ?thesis unfolding group_ok_def using l' m' t' u' by blast
qed

lemma group_ok_empty: "group_ok si npc nsc S [] (replicate (nat S) 0) 0 0"
  by (simp add: group_ok_def touch_cnt_def)

text \<open>What the model passes to \<open>MarkUsed\<close> and \<open>GetConfilctCount\<close> are the sample rows.\<close>

lemma MarkUsed_sample_rows:
  "(if \<not> is_filtered_feature nsc f
    then MarkUsed m (if is_filtered_feature nsc f then [] else si ! f) (cur_non_zero_cnt npc nsc f)
    else m)
   = fold (\<lambda>idx m. m[idx := (m ! idx + 1) mod 256]) (sample_rows si npc nsc f) m"
  by (simp add: MarkUsed_def sample_rows_def cur_non_zero_cnt_def)

lemma cur_non_zero_cnt_rows:
  assumes "samples_ok si npc nsc S f"
  shows "cur_non_zero_cnt npc nsc f = int (length (sample_rows si npc nsc f))"
  using assms by (auto simp: samples_ok_def cur_non_zero_cnt_def sample_rows_def)

lemma conflict_count_rows:
  assumes "cnt = (if is_filtered_feature nsc f then 0
                  else GetConfilctCount m (if is_filtered_feature nsc f then [] else si ! f)
                         (cur_non_zero_cnt npc nsc f) rest mfc)"
    and "0 \<le> cnt" "mfc \<le> 64"
  shows "cnt = int (length (filter (\<lambda>r. m ! r \<noteq> 0) (sample_rows si npc nsc f))) \<and>
         (\<forall>r \<in> set (sample_rows si npc nsc f). m ! r \<noteq> 0 \<longrightarrow> m ! r < 64)"
proof (cases "is_filtered_feature nsc f")
  case True
  then show ?thesis using assms(1) by (simp add: sample_rows_def)
next
  case False
  then have c: "cnt = GetConfilctCount_loop m (sample_rows si npc nsc f) 0 rest mfc"
    using assms(1) by (simp add: GetConfilctCount_def sample_rows_def cur_non_zero_cnt_def)
  from GetConfilctCount_loop_count [of 0 m "sample_rows si npc nsc f" rest mfc] assms(2,3) c
  show ?thesis by auto
qed

lemma search1_count:
  assumes "search1 S st filtered nz indices sg = (bg, bc)" "0 \<le> bg"
  shows "\<exists>gid \<in> set sg. bg = int gid \<and> 0 \<le> bc \<and>
           bc = (if filtered then 0
                 else GetConfilctCount (conflict_marks st ! gid) indices nz
                        (single_val_max_conflict_cnt S - group_total_data_cnt st ! gid
                           + group_used_row_cnt st ! gid) 1)"
  using assms
proof (induction sg)
  case Nil
  then show ?case by simp
next
  case (Cons gid sg)
  define rest where "rest = single_val_max_conflict_cnt S - group_total_data_cnt st ! gid
                   + group_used_row_cnt st ! gid"
  define cnt where "cnt = (if filtered then 0
      else GetConfilctCount (conflict_marks st ! gid) indices nz rest 1)"
  define ok where "ok \<longleftrightarrow> cnt \<ge> 0 \<and> cnt \<le> rest \<and> cnt \<le> nz sdiv 2"
  have eq: "search1 S st filtered nz indices (gid # sg) =
      (if ok then (int gid, cnt) else search1 S st filtered nz indices sg)"
    by (simp only: search1.simps Let_def cnt_def rest_def ok_def)
  have res: "(if ok then (int gid, cnt) else search1 S st filtered nz indices sg) = (bg, bc)"
    using Cons.prems(1) unfolding eq .
  show ?case
  proof (cases ok)
    case True
    then have "bg = int gid" "bc = cnt" using res by simp_all
    then show ?thesis using True unfolding rest_def ok_def cnt_def by simp
  next
    case False
    then have "search1 S st filtered nz indices sg = (bg, bc)"
      using res by simp
    from Cons.IH [OF this Cons.prems(2)] show ?thesis by auto
  qed
qed

lemma search2_count:
  assumes "search2 S st filtered nz indices sg = Inr (bg, bc)" "0 \<le> bg"
  shows "\<exists>gid \<in> set sg. bg = int gid \<and> 0 \<le> bc \<and> bc = search2_cnt S st filtered nz indices gid"
proof -
  let ?P = "\<lambda>best. fst best < 0 \<or>
     (\<exists>gid \<in> set sg. fst best = int gid \<and> 0 \<le> snd best \<and>
        snd best = search2_cnt S st filtered nz indices gid)"
  have "?P (bg, bc)"
  proof (rule fold_break_invariant [where P = ?P, OF assms(1) [unfolded search2_def]])
    show "?P (-1, S + 1)" by simp
  next
    fix x t b t'
    assume x: "x \<in> set sg" and t: "?P t"
      and it: "search2_iter S st filtered nz indices x t = Inr (b, t')"
    obtain g c where tt: "t = (g, c)" by (cases t)
    let ?cnt = "search2_cnt S st filtered nz indices x"
    show "?P t'"
    proof (cases "?cnt < 0")
      case True
      then have "t' = t" using it unfolding tt search2_iter_eq by simp
      then show ?thesis using t by simp
    next
      case False
      then obtain better where "tie_break st x ?cnt g c = Inr better"
        and t': "t' = (if better then int x else g, if better then ?cnt else c)"
        using it unfolding tt search2_iter_eq by (auto split: sum.splits)
      show ?thesis
      proof (cases better)
        case True
        then show ?thesis using t' x False by auto
      next
        case False
        then have "t' = t" using t' tt by simp
        then show ?thesis using t by simp
      qed
    qed
  qed
  then show ?thesis using assms(2) by auto
qed

lemma join_group_marks_inv:
  assumes inv: "marks_inv si npc nsc S order st"
    and f: "fidx \<in> set order" "samples_ok si npc nsc S fidx"
    and cnt: "g < length (features_in_group st) \<Longrightarrow>
              cnt = (if is_filtered_feature nsc fidx then 0
                     else GetConfilctCount (conflict_marks st ! g)
                            (if is_filtered_feature nsc fidx then [] else si ! fidx)
                            (cur_non_zero_cnt npc nsc fidx) rest mfc)"
      "0 \<le> cnt" "mfc \<le> 64"
  shows "marks_inv si npc nsc S order
           (join_group fidx (is_filtered_feature nsc fidx) (cur_non_zero_cnt npc nsc fidx)
              (if is_filtered_feature nsc fidx then [] else si ! fidx) dbin g cnt
              (st\<lparr>rand := r\<rparr>))"
proof -
  let ?fl = "is_filtered_feature nsc fidx"
  let ?nz = "cur_non_zero_cnt npc nsc fidx"
  let ?idx = "if ?fl then [] else si ! fidx"
  let ?rows = "sample_rows si npc nsc fidx"
  let ?j = "join_group fidx ?fl ?nz ?idx dbin g cnt (st\<lparr>rand := r\<rparr>)"
  have al: "groups_aligned st" using inv by (simp add: marks_inv_def)
  then have lens: "length (conflict_marks st) = length (features_in_group st)"
    "length (group_used_row_cnt st) = length (features_in_group st)"
    "length (group_total_data_cnt st) = length (features_in_group st)"
    by (simp_all add: groups_aligned_def)
  have al': "groups_aligned ?j" using al by (simp add: groups_aligned_def join_group_def)
  have len': "length (features_in_group ?j) = length (features_in_group st)"
    by (simp add: join_group_def)
  have old: "set (features_in_group st ! gid) \<subseteq> set order \<and>
        group_ok si npc nsc S (features_in_group st ! gid) (conflict_marks st ! gid)
          (group_total_data_cnt st ! gid) (group_used_row_cnt st ! gid)"
    if "gid < length (features_in_group st)" for gid
    using inv that by (simp add: marks_inv_def)
  have marks_j: "conflict_marks ?j =
      (conflict_marks st)[g := fold (\<lambda>idx m. m[idx := (m ! idx + 1) mod 256]) ?rows
                                 (conflict_marks st ! g)]"
  proof (cases ?fl)
    case True
    then show ?thesis by (simp add: join_group_def sample_rows_def)
  next
    case False
    then show ?thesis using MarkUsed_sample_rows [of nsc fidx "conflict_marks st ! g" si npc]
      by (simp add: join_group_def)
  qed
  have new: "set (features_in_group ?j ! gid) \<subseteq> set order \<and>
        group_ok si npc nsc S (features_in_group ?j ! gid) (conflict_marks ?j ! gid)
          (group_total_data_cnt ?j ! gid) (group_used_row_cnt ?j ! gid)"
    if gid: "gid < length (features_in_group st)" for gid
  proof (cases "gid = g")
    case False
    then show ?thesis using old [OF gid] unfolding marks_j by (simp add: join_group_def)
  next
    case True
    then have g: "g < length (features_in_group st)" using gid by simp
    note c = cnt(1) [OF g]
    from conflict_count_rows [OF c cnt(2,3)]
    have cr: "cnt = int (length (filter (\<lambda>r. conflict_marks st ! g ! r \<noteq> 0) ?rows))"
      and lt: "\<forall>r \<in> set ?rows. conflict_marks st ! g ! r \<noteq> 0 \<longrightarrow> conflict_marks st ! g ! r < 64"
      by simp_all
    have free: "\<forall>r \<in> set ?rows. conflict_marks st ! g ! r < 64"
      using lt by fastforce
    have d: "distinct ?rows" using f(2) by (auto simp: samples_ok_def sample_rows_def)
    have rg: "\<forall>r \<in> set ?rows. r < nat S"
    proof
      fix r assume r: "r \<in> set ?rows"
      then have "\<not> ?fl" by (auto simp: sample_rows_def split: if_splits)
      then have "int r < S" using f(2) r by (simp add: samples_ok_def)
      then show "r < nat S" by simp
    qed
    have nz: "?nz = int (length ?rows)" using f(2) by (rule cur_non_zero_cnt_rows)
    from group_ok_append [OF conjunct2 [OF old [OF g]] refl d rg free]
    have ok: "group_ok si npc nsc S (features_in_group st ! g @ [fidx])
           (fold (\<lambda>idx m. m[idx := (m ! idx + 1) mod 256]) ?rows (conflict_marks st ! g))
           (group_total_data_cnt st ! g + ?nz)
           (group_used_row_cnt st ! g + (?nz - cnt))"
      unfolding nz cr .
    have sub: "set (features_in_group st ! g @ [fidx]) \<subseteq> set order"
      using old [OF g] f(1) by simp
    show ?thesis unfolding True marks_j using ok sub g lens
      by (simp add: join_group_def)
  qed
  show ?thesis unfolding marks_inv_def using al' new len' by simp
qed

lemma new_group_marks_inv:
  assumes inv: "marks_inv si npc nsc S order st"
    and f: "fidx \<in> set order" "samples_ok si npc nsc S fidx"
    and ng: "new_group S fidx (is_filtered_feature nsc fidx) (cur_non_zero_cnt npc nsc fidx)
               (if is_filtered_feature nsc fidx then [] else si ! fidx) dbin
               (st\<lparr>rand := r\<rparr>) = Inr st'"
  shows "marks_inv si npc nsc S order st'"
proof -
  let ?fl = "is_filtered_feature nsc fidx"
  let ?nz = "cur_non_zero_cnt npc nsc fidx"
  let ?idx = "if ?fl then [] else si ! fidx"
  let ?rows = "sample_rows si npc nsc fidx"
  let ?m = "fold (\<lambda>idx m. m[idx := (m ! idx + 1) mod 256]) ?rows (replicate (nat S) 0)"
  have al: "groups_aligned st" using inv by (simp add: marks_inv_def)
  then have lens: "length (conflict_marks st) = length (features_in_group st)"
    "length (group_used_row_cnt st) = length (features_in_group st)"
    "length (group_total_data_cnt st) = length (features_in_group st)"
    by (simp_all add: groups_aligned_def)
  have mk: "(if \<not> ?fl then MarkUsed (replicate (nat S) 0) ?idx ?nz else replicate (nat S) 0) = ?m"
    by (rule MarkUsed_sample_rows)
  from ng have st': "st' = st\<lparr>rand := r,
        features_in_group := features_in_group st @ [[fidx]],
        conflict_marks := conflict_marks st @ [?m],
        group_total_data_cnt := group_total_data_cnt st @ [?nz],
        group_used_row_cnt := group_used_row_cnt st @ [?nz],
        group_num_bin := group_num_bin st @ [1 + dbin]\<rparr>"
    unfolding new_group_Inr mk by simp
  have d: "distinct ?rows" using f(2) by (auto simp: samples_ok_def sample_rows_def)
  have rg: "\<forall>r \<in> set ?rows. r < nat S"
  proof
    fix r assume r: "r \<in> set ?rows"
    then have "\<not> ?fl" by (auto simp: sample_rows_def split: if_splits)
    then have "int r < S" using f(2) r by (simp add: samples_ok_def)
    then show "r < nat S" by simp
  qed
  have nz: "?nz = int (length ?rows)" using f(2) by (rule cur_non_zero_cnt_rows)
  have free: "\<forall>r \<in> set ?rows. replicate (nat S) (0 :: nat) ! r < 64" using rg by simp
  have fe: "filter (\<lambda>r. replicate (nat S) (0 :: nat) ! r \<noteq> 0) ?rows = []"
    using rg by (simp add: filter_empty_conv)
  from group_ok_append [OF group_ok_empty refl d rg free]
  have ok: "group_ok si npc nsc S [fidx] ?m ?nz ?nz"
    unfolding fe nz by simp
  have al': "groups_aligned st'" using al st' by (simp add: groups_aligned_def)
  have "set (features_in_group st' ! gid) \<subseteq> set order \<and>
        group_ok si npc nsc S (features_in_group st' ! gid) (conflict_marks st' ! gid)
          (group_total_data_cnt st' ! gid) (group_used_row_cnt st' ! gid)"
    if "gid < length (features_in_group st')" for gid
  proof (cases "gid < length (features_in_group st)")
    case True
    then show ?thesis using inv lens st' by (simp add: marks_inv_def nth_append)
  next
    case False
    then have "gid = length (features_in_group st)" using that st' by simp
    then show ?thesis using lens st' ok f(1) by (simp add: nth_append)
  qed
  then show ?thesis unfolding marks_inv_def using al' by simp
qed

lemma marks_inv_flags:
  "marks_inv si npc nsc S order (st\<lparr>forced_single_val_group := a, multi_val_group := b\<rparr>)
     = marks_inv si npc nsc S order st"
  by (simp add: marks_inv_def groups_aligned_def)

lemma mark_multi_val_marks_inv:
  "marks_inv si npc nsc S order (mark_multi_val S g st) = marks_inv si npc nsc S order st"
  by (simp add: marks_inv_def groups_aligned_def mark_multi_val_def)

lemma round1_step_marks_inv:
  assumes inv: "marks_inv si npc nsc S order st"
    and f: "fidx \<in> set order" "samples_ok si npc nsc S fidx"
    and step: "round1_step R bm si npc nsc S gpu fidx st = Inr st'"
  shows "marks_inv si npc nsc S order st'"
proof -
  let ?filtered = "is_filtered_feature nsc fidx"
  let ?nz = "cur_non_zero_cnt npc nsc fidx"
  let ?dbin = "delta_bin bm fidx"
  let ?idx = "if ?filtered then [] else si ! fidx"
  obtain sg r where sel: "select_search_groups R (rand st)
          (available_groups1 S gpu st ?nz ?dbin) = (sg, r)"
    by (cases "select_search_groups R (rand st) (available_groups1 S gpu st ?nz ?dbin)")
  obtain bg bc where s1: "search1 S st ?filtered ?nz ?idx sg = (bg, bc)"
    by (cases "search1 S st ?filtered ?nz ?idx sg")
  show ?thesis
  proof (cases "bg \<ge> 0")
    case True
    from search1_count [OF s1 True] obtain gid where g: "gid \<in> set sg" "bg = int gid" "0 \<le> bc"
      "bc = (if ?filtered then 0
             else GetConfilctCount (conflict_marks st ! gid) ?idx ?nz
                    (single_val_max_conflict_cnt S - group_total_data_cnt st ! gid
                       + group_used_row_cnt st ! gid) 1)" by auto
    have st': "st' = join_group fidx ?filtered ?nz ?idx ?dbin gid bc (st\<lparr>rand := r\<rparr>)"
      using step sel s1 True g(2) by (simp add: round1_step_def Let_def)
    show ?thesis unfolding st'
      by (rule join_group_marks_inv [OF inv f g(4) g(3)]) simp
  next
    case False
    have ng: "new_group S fidx ?filtered ?nz ?idx ?dbin (st\<lparr>rand := r\<rparr>) = Inr st'"
      using step sel s1 False by (simp add: round1_step_def Let_def)
    show ?thesis by (rule new_group_marks_inv [OF inv f ng])
  qed
qed

lemma round2_step_marks_inv:
  assumes inv: "marks_inv si npc nsc S order st"
    and f: "fidx \<in> set order" "samples_ok si npc nsc S fidx"
    and step: "round2_step R bm si npc nsc S gpu fidx st = Inr st'"
  shows "marks_inv si npc nsc S order st'"
proof -
  let ?filtered = "is_filtered_feature nsc fidx"
  let ?nz = "cur_non_zero_cnt npc nsc fidx"
  let ?dbin = "delta_bin bm fidx"
  let ?idx = "if ?filtered then [] else si ! fidx"
  obtain sg r where sel: "select_search_groups R (rand st)
          (available_groups2 S gpu st ?nz ?dbin) = (sg, r)"
    by (cases "select_search_groups R (rand st) (available_groups2 S gpu st ?nz ?dbin)")
  obtain bg bc where s2: "search2 S st ?filtered ?nz ?idx sg = Inr (bg, bc)"
    using step sel by (cases "search2 S st ?filtered ?nz ?idx sg")
      (auto simp: round2_step_def Let_def)
  show ?thesis
  proof (cases "bg \<ge> 0")
    case True
    from search2_count [OF s2 True] obtain gid where g: "gid \<in> set sg" "bg = int gid" "0 \<le> bc"
      "bc = search2_cnt S st ?filtered ?nz ?idx gid" by auto
    have st': "st' = mark_multi_val S gid
               (join_group fidx ?filtered ?nz ?idx ?dbin gid bc (st\<lparr>rand := r\<rparr>))"
      using step sel s2 True g(2) by (simp add: round2_step_def Let_def)
    have c: "bc = (if ?filtered then 0
             else GetConfilctCount (conflict_marks st ! gid) ?idx ?nz
                    (if forced_single_val_group st ! gid
                     then min S (single_val_max_conflict_cnt S - group_total_data_cnt st ! gid
                                   + group_used_row_cnt st ! gid)
                     else S) max_concurrent_feature_per_group)"
      using g(4) by (simp add: search2_cnt_def)
    show ?thesis unfolding st' mark_multi_val_marks_inv
      by (rule join_group_marks_inv [OF inv f c g(3)])
         (simp add: max_concurrent_feature_per_group_def)
  next
    case False
    obtain st1 where ng: "new_group S fidx ?filtered ?nz ?idx ?dbin (st\<lparr>rand := r\<rparr>) = Inr st1"
      and st': "st' = st1\<lparr>forced_single_val_group := forced_single_val_group st1 @ [False],
                 multi_val_group := multi_val_group st1 @ [False]\<rparr>"
      using step sel s2 False
      by (cases "new_group S fidx ?filtered ?nz ?idx ?dbin (st\<lparr>rand := r\<rparr>)")
         (auto simp: round2_step_def Let_def)
    show ?thesis unfolding st' marks_inv_flags
      by (rule new_group_marks_inv [OF inv f ng])
  qed
qed

lemma keep_dense_groups_marks_inv:
  assumes "marks_inv si npc nsc S order st"
  shows "marks_inv si npc nsc S order (keep_dense_groups S st)"
proof -
  let ?keep = "dense_groups S st"
  have r: "?keep ! gid < length (features_in_group st)" if "gid < length ?keep" for gid
    using dense_groups_range [of "?keep ! gid" S st] that by simp
  show ?thesis
    using assms r
    by (simp add: marks_inv_def groups_aligned_def keep_dense_groups_def Let_def)
qed

lemma second_round_features_order:
  assumes "marks_inv si npc nsc S order st"
  shows "set (second_round_features S' st) \<subseteq> set order"
  using assms by (auto simp: second_round_features_def marks_inv_def)

lemma FindGroups_run_marks_inv:
  assumes run: "FindGroups_run R bm order si npc nsc S N gpu = Inr st"
    and ok: "\<forall>f \<in> set order. samples_ok si npc nsc S f"
  shows "marks_inv si npc nsc S order st"
proof -
  from run obtain st1 where r1: "fold_err (round1_step R bm si npc nsc S gpu) order
        (FindGroups_init R N) = Inr st1"
    and r2: "fold_err (round2_step R bm si npc nsc S gpu) (second_round_features S st1)
               (keep_dense_groups S st1) = Inr st"
    by (auto simp: FindGroups_run_def FindGroups_round1_def split: sum.splits)
  have i0: "marks_inv si npc nsc S order (FindGroups_init R N)"
    by (simp add: marks_inv_def FindGroups_init_def groups_aligned_def)
  have i1: "marks_inv si npc nsc S order st1"
    by (rule fold_err_invariant [where P = "marks_inv si npc nsc S order", OF r1 i0])
       (use ok in \<open>auto intro: round1_step_marks_inv\<close>)
  have sub: "set (second_round_features S st1) \<subseteq> set order"
    using i1 by (rule second_round_features_order)
  show ?thesis
    by (rule fold_err_invariant [where P = "marks_inv si npc nsc S order", OF r2
          keep_dense_groups_marks_inv [OF i1]])
       (use ok sub in \<open>auto intro: round2_step_marks_inv\<close>)
qed

lemma sum_extra:
  "(\<Sum>r < n. c r - 1) + card {r. r < n \<and> 0 < c r} = (\<Sum>r < (n :: nat). (c r :: nat))"
proof -
  have "card {r. r < n \<and> 0 < c r} = (\<Sum>r < n. if 0 < c r then 1 else 0)"
  proof -
    have "{r. r < n \<and> 0 < c r} = {..<n} \<inter> {r. 0 < c r}" by auto
    then have "card {r. r < n \<and> 0 < c r} = (\<Sum>r \<in> {..<n} \<inter> {r. 0 < c r}. 1)" by simp
    also have "\<dots> = (\<Sum>r < n. if r \<in> {r. 0 < c r} then 1 else 0)"
      by (subst sum.inter_restrict) simp_all
    finally show ?thesis by simp
  qed
  then have "(\<Sum>r < n. c r - 1) + card {r. r < n \<and> 0 < c r}
      = (\<Sum>r < n. (c r - 1) + (if 0 < c r then 1 else 0))"
    by (simp add: sum.distrib)
  also have "\<dots> = (\<Sum>r < n. c r)"
    by (rule sum.cong) auto
  finally show ?thesis .
qed

text \<open>
  Claim C5. For sample rows as sampling delivers them (\<open>samples_ok\<close> for the features of
  \<open>find_order\<close>), every group that \<open>FindGroups\<close> returns as single-valued has at most
  \<open>single_val_max_conflict_cnt = S / 10000\<close> conflicts: summed over the sample rows, the
  number of features of the group on the row beyond the first. That sum is
  \<open>group_total_data_cnt - group_used_row_cnt\<close> of the group in the state \<open>FindGroups\<close>
  returns from. A group exists only for \<open>S \<ge> 0\<close>, where the truncating division of the
  source is \<open>div\<close>, and the flags returned have one entry per group.
\<close>

theorem FindGroups_single_val_conflicts:
  assumes "FindGroups R bin_mappers find_order sample_indices num_per_col num_sample_col
             total_sample_cnt num_data is_use_gpu = Inr (groups, flags)"
    and "\<forall>f \<in> set find_order.
           samples_ok sample_indices num_per_col num_sample_col total_sample_cnt f"
    and "gid < length groups"
    and "\<not> flags ! gid"
  shows "int (\<Sum>r < nat total_sample_cnt.
                touch_cnt sample_indices num_per_col num_sample_col (groups ! gid) r - 1)
           \<le> total_sample_cnt div 10000
       \<and> single_val_max_conflict_cnt total_sample_cnt = total_sample_cnt div 10000
       \<and> length flags = length groups
       \<and> (\<exists>st. FindGroups_run R bin_mappers find_order sample_indices num_per_col
                  num_sample_col total_sample_cnt num_data is_use_gpu = Inr st \<and>
                features_in_group st = groups \<and> multi_val_group st = flags \<and>
                group_total_data_cnt st ! gid - group_used_row_cnt st ! gid
                  = int (\<Sum>r < nat total_sample_cnt.
                           touch_cnt sample_indices num_per_col num_sample_col (groups ! gid) r - 1))"
proof -
  let ?c = "touch_cnt sample_indices num_per_col num_sample_col (groups ! gid)"
  let ?n = "nat total_sample_cnt"
  from assms(1) obtain st where run: "FindGroups_run R bin_mappers find_order sample_indices
      num_per_col num_sample_col total_sample_cnt num_data is_use_gpu = Inr st"
    and gr: "features_in_group st = groups" and fl: "multi_val_group st = flags"
    by (auto simp: FindGroups_def split: sum.splits)
  have inv: "round2_inv total_sample_cnt st" using run by (rule FindGroups_run_inv)
  have g: "gid < length (features_in_group st)" using assms(3) gr by simp
  have S: "0 \<le> total_sample_cnt" using inv g by (auto simp: round2_inv_def)
  have sv: "single_val_max_conflict_cnt total_sample_cnt = total_sample_cnt div 10000"
    using S by (simp add: single_val_max_conflict_cnt_def signed_divide_int_def sgn_if)
  have bd: "group_total_data_cnt st ! gid - group_used_row_cnt st ! gid
           \<le> single_val_max_conflict_cnt total_sample_cnt"
    using inv g assms(4) fl by (simp add: round2_inv_def conflicts_bounded_def)
  have len: "length flags = length groups"
    using inv gr fl by (simp add: round2_inv_def flags_aligned_def)
  have "marks_inv sample_indices num_per_col num_sample_col total_sample_cnt find_order st"
    using run assms(2) by (rule FindGroups_run_marks_inv)
  then have "group_ok sample_indices num_per_col num_sample_col total_sample_cnt
      (features_in_group st ! gid) (conflict_marks st ! gid)
      (group_total_data_cnt st ! gid) (group_used_row_cnt st ! gid)"
    using g by (simp add: marks_inv_def)
  then have t: "group_total_data_cnt st ! gid = int (\<Sum>r < ?n. ?c r)"
    and u: "group_used_row_cnt st ! gid = int (card {r. r < ?n \<and> 0 < ?c r})"
    unfolding group_ok_def gr by blast+
  have "int (\<Sum>r < ?n. ?c r - 1) + int (card {r. r < ?n \<and> 0 < ?c r}) = int (\<Sum>r < ?n. ?c r)"
    using sum_extra [where n = ?n and c = ?c] by (simp only: of_nat_add [symmetric])
  then have eq: "group_total_data_cnt st ! gid - group_used_row_cnt st ! gid
      = int (\<Sum>r < ?n. ?c r - 1)"
    unfolding t u by linarith
  have "int (\<Sum>r < ?n. ?c r - 1) \<le> total_sample_cnt div 10000"
    using bd unfolding eq sv .
  then show ?thesis using sv len run gr fl eq by blast
qed

theorem FindGroups_single_val_conflicts_witness:
  "FindGroups counter_Random example_mappers [0, 1] shared_indices [2, 2] 2 10000 4 False
     = Inr ([[0, 1]], [False]) \<and>
   samples_ok shared_indices [2, 2] 2 10000 0 \<and>
   samples_ok shared_indices [2, 2] 2 10000 1 \<and>
   touch_cnt shared_indices [2, 2] 2 [0, 1] 1 = 2 \<and>
   int (\<Sum>r < nat 10000. touch_cnt shared_indices [2, 2] 2 [0, 1] r - 1) \<le> 1"
proof -
  have run: "FindGroups counter_Random example_mappers [0, 1] shared_indices [2, 2] 2 10000 4 False
     = Inr ([[0, 1]], [False])"
    by code_simp
  have ok: "\<forall>f \<in> set [0, 1]. samples_ok shared_indices [2, 2] 2 10000 f"
    by (simp add: samples_ok_def sample_rows_def is_filtered_feature_def shared_indices_def)
  have t: "touch_cnt shared_indices [2, 2] 2 [0, 1] 1 = 2"
    by (simp add: touch_cnt_def sample_rows_def is_filtered_feature_def shared_indices_def)
  have ok': "samples_ok shared_indices [2, 2] 2 10000 0" "samples_ok shared_indices [2, 2] 2 10000 1"
    using ok by simp_all
  from FindGroups_single_val_conflicts [OF run ok, of 0] run ok' t show ?thesis by simp
qed

section \<open>Properties of FastFeatureBundling\<close>

lemma swap_entries_length [simp]: "length (swap_entries xs i j) = length xs"
  by (simp add: swap_entries_def)

lemma swap_entries_zip:
  assumes "i < length xs" "j < length xs" "length ys = length xs"
  shows "zip (swap_entries xs i j) (swap_entries ys i j) = swap_entries (zip xs ys) i j"
  using assms by (simp add: swap_entries_def zip_update)

lemma swap_entries_mset:
  "i < length xs \<Longrightarrow> j < length xs \<Longrightarrow> mset (swap_entries xs i j) = mset xs"
  unfolding swap_entries_def by (rule mset_swap)

lemma shuffle_step_perm:
  assumes "Random_ok R" "length flags = length groups" "int i + 1 < int (length groups)"
    and "shuffle_step R i (r, groups, flags) = (r', groups', flags')"
  shows "length groups' = length groups \<and> length flags' = length groups
         \<and> mset (zip groups' flags') = mset (zip groups flags)"
proof -
  obtain j r2 where ns: "NextShort R r (int i + 1) (int (length groups)) = (j, r2)"
    by (cases "NextShort R r (int i + 1) (int (length groups))")
  have "int i + 1 \<le> j \<and> j < int (length groups)"
    using assms(1,3) ns unfolding Random_ok_def by (metis fst_conv)
  then have j: "nat j < length groups" and i: "i < length groups" using assms(3) by auto
  have g': "groups' = swap_entries groups i (nat j)" and f': "flags' = swap_entries flags i (nat j)"
    using assms(4) ns by (simp_all add: shuffle_step_def)
  have "mset (zip groups' flags') = mset (swap_entries (zip groups flags) i (nat j))"
    unfolding g' f' using swap_entries_zip [OF i j assms(2)] by simp
  also have "\<dots> = mset (zip groups flags)"
    using i j assms(2) by (simp add: swap_entries_mset)
  finally show ?thesis using g' f' assms(2) by simp
qed

lemma shuffle_fold_perm:
  assumes "Random_ok R" "length flags = length groups"
    "\<forall>i \<in> set idxs. int i + 1 < int (length groups)"
    "fold (shuffle_step R) idxs (r, groups, flags) = (r', groups', flags')"
  shows "length groups' = length groups \<and> length flags' = length groups
         \<and> mset (zip groups' flags') = mset (zip groups flags)"
  using assms(2-4)
proof (induction idxs arbitrary: r groups flags)
  case Nil
  then show ?case by simp
next
  case (Cons i idxs)
  obtain r1 g1 f1 where st: "shuffle_step R i (r, groups, flags) = (r1, g1, f1)"
    by (cases "shuffle_step R i (r, groups, flags)")
  have p: "length g1 = length groups \<and> length f1 = length groups
         \<and> mset (zip g1 f1) = mset (zip groups flags)"
    using shuffle_step_perm [OF assms(1) Cons.prems(1) _ st] Cons.prems(2) by simp
  have "fold (shuffle_step R) idxs (r1, g1, f1) = (r', groups', flags')"
    using Cons.prems(3) st by simp
  from Cons.IH [OF _ _ this] p Cons.prems(2) show ?case by simp
qed

lemma shuffle_groups_perm:
  assumes "Random_ok R" "length flags = length groups"
    "shuffle_groups R N groups flags = (groups', flags')"
  shows "length groups' = length groups \<and> length flags' = length groups
         \<and> mset (zip groups' flags') = mset (zip groups flags)"
proof -
  obtain r' where f: "fold (shuffle_step R) [0..<nat (int (length groups) - 1)]
            (Random_seed R N, groups, flags) = (r', groups', flags')"
    using assms(3) unfolding shuffle_groups_def
    by (cases "fold (shuffle_step R) [0..<nat (int (length groups) - 1)]
            (Random_seed R N, groups, flags)") auto
  have "\<forall>i \<in> set [0..<nat (int (length groups) - 1)]. int i + 1 < int (length groups)"
    by auto
  from shuffle_fold_perm [OF assms(1,2) this f] show ?thesis .
qed

lemma sorted_idx_perm: "mset (sorted_idx cnt) = mset [0..<length cnt]"
  by (simp add: sorted_idx_def)

lemma feature_order_by_cnt_perm:
  "mset (feature_order_by_cnt num_per_col num_sample_col used_features) = mset used_features"
proof -
  let ?cnt = "feature_non_zero_cnt num_per_col num_sample_col used_features"
  have len: "length ?cnt = length used_features" by (simp add: feature_non_zero_cnt_def)
  have "mset (map (\<lambda>sidx. used_features ! sidx) (sorted_idx ?cnt))
      = image_mset (\<lambda>sidx. used_features ! sidx) (mset [0..<length ?cnt])"
    by (simp add: sorted_idx_perm del: mset_upt)
  also have "\<dots> = mset (map (\<lambda>sidx. used_features ! sidx) [0..<length used_features])"
    unfolding len by (simp del: mset_upt)
  also have "\<dots> = mset used_features" by (simp only: map_nth)
  finally show ?thesis by (simp add: feature_order_by_cnt_def)
qed

lemma sorted_idx_descending:
  "sorted_wrt (\<lambda>a b. cnt ! a \<ge> cnt ! b) (sorted_idx cnt)"
proof -
  have "sorted (map (\<lambda>i. - int (cnt ! i)) (sorted_idx cnt))"
    unfolding sorted_idx_def by (rule sorted_sort_key)
  then show ?thesis by (simp add: sorted_map sorted_wrt_iff_nth_less)
qed

lemma sorted_idx_stable:
  "filter (\<lambda>i. cnt ! i = c) (sorted_idx cnt) = filter (\<lambda>i. cnt ! i = c) [0..<length cnt]"
proof -
  have "filter (\<lambda>i. - int (cnt ! i) = - int c) (sort_key (\<lambda>i. - int (cnt ! i)) [0..<length cnt])
      = filter (\<lambda>i. - int (cnt ! i) = - int c) [0..<length cnt]"
    by (rule sort_key_stable)
  then show ?thesis by (simp add: sorted_idx_def)
qed

lemma filter_sorted_nth:
  assumes "sorted_wrt R (filter P xs)" "a < b" "b < length xs" "P (xs ! a)" "P (xs ! b)"
  shows "R (xs ! a) (xs ! b)"
proof -
  have xs: "xs = take b xs @ xs ! b # drop (Suc b) xs"
    using assms(3) by (rule id_take_nth_drop)
  have "filter P xs = filter P (take b xs) @ filter P (xs ! b # drop (Suc b) xs)"
    by (subst xs) simp
  then have s: "sorted_wrt R (filter P (take b xs) @ xs ! b # filter P (drop (Suc b) xs))"
    using assms(1,5) by simp
  have "xs ! a \<in> set (take b xs)"
    using assms(2,3) by (metis in_set_conv_nth length_take min.absorb2 nth_take order_less_imp_le)
  then have "xs ! a \<in> set (filter P (take b xs))" using assms(4) by simp
  then show ?thesis using s by (simp add: sorted_wrt_append)
qed

lemma sorted_idx_stable_sort:
  assumes "a < b" "b < length (sorted_idx cnt)"
  shows "cnt ! (sorted_idx cnt ! a) > cnt ! (sorted_idx cnt ! b) \<or>
         (cnt ! (sorted_idx cnt ! a) = cnt ! (sorted_idx cnt ! b) \<and>
          sorted_idx cnt ! a < sorted_idx cnt ! b)"
proof -
  let ?xs = "sorted_idx cnt"
  have ge: "cnt ! (?xs ! a) \<ge> cnt ! (?xs ! b)"
    using sorted_idx_descending [of cnt] assms by (simp add: sorted_wrt_iff_nth_less)
  show ?thesis
  proof (cases "cnt ! (?xs ! a) = cnt ! (?xs ! b)")
    case False
    then show ?thesis using ge by simp
  next
    case True
    let ?P = "\<lambda>i. cnt ! i = cnt ! (?xs ! b)"
    have "sorted_wrt (<) (filter ?P [0..<length cnt])"
      by (rule sorted_wrt_filter) (rule sorted_wrt_upt)
    then have "sorted_wrt (<) (filter ?P ?xs)"
      by (simp only: sorted_idx_stable)
    from filter_sorted_nth [OF this assms True refl] True show ?thesis by simp
  qed
qed

text \<open>
  Claim C3. For a generator that keeps its contract and runs of \<open>FindGroups\<close> that return,
  on the caller's order (\<open>groups_A\<close>) and on \<open>feature_order_by_cnt\<close> (\<open>groups_B\<close>),
  both on the fixed-up samples: \<open>FastFeatureBundling\<close> returns as many groups as the
  smaller of the two results, and its groups paired with their flags are a permutation of
  the pairs of \<open>groups_A\<close> when that has no more groups than \<open>groups_B\<close>, and of the pairs
  of \<open>groups_B\<close> otherwise. The second order, \<open>feature_order_by_cnt\<close>, lists
  \<open>used_features\<close> by a permutation \<open>ord\<close> of its positions such that of two positions
  the one with the larger non-zero count (\<open>num_per_col\<close> as a \<open>size_t\<close>, and \<open>0\<close> for a
  feature outside the sampled columns) comes first, and of two with the same count the
  smaller position: the stable order of decreasing counts.
\<close>

theorem FastFeatureBundling_chooses_and_shuffles:
  assumes "Random_ok R" and "0 \<le> num_sample_col"
    and "fixed_samples bin_mappers sample_indices sample_values num_per_col num_sample_col
           total_sample_cnt used_features = (indices, tmp_num_per_col)"
    and "FindGroups R bin_mappers used_features indices tmp_num_per_col num_sample_col
           total_sample_cnt num_data is_use_gpu = Inr (groups_A, flags_A)"
    and "FindGroups R bin_mappers (feature_order_by_cnt num_per_col num_sample_col used_features)
           indices tmp_num_per_col num_sample_col total_sample_cnt num_data is_use_gpu
           = Inr (groups_B, flags_B)"
  shows "(\<exists>groups flags.
           FastFeatureBundling R bin_mappers sample_indices sample_values num_per_col
             num_sample_col total_sample_cnt used_features num_data is_use_gpu
             = Inr (groups, flags) \<and>
           length groups = min (length groups_A) (length groups_B) \<and>
           length flags = length groups \<and>
           mset (zip groups flags) =
             (if length groups_A \<le> length groups_B then mset (zip groups_A flags_A)
              else mset (zip groups_B flags_B)))
       \<and> (\<exists>ord cnt.
             cnt = (\<lambda>i. if int (used_features ! i) < num_sample_col
                         then to_size_t (num_per_col ! (used_features ! i)) else 0) \<and>
             feature_order_by_cnt num_per_col num_sample_col used_features
               = map (\<lambda>i. used_features ! i) ord \<and>
             mset ord = mset [0..<length used_features] \<and>
             (\<forall>a b. a < b \<and> b < length ord \<longrightarrow>
                cnt (ord ! a) > cnt (ord ! b) \<or>
                (cnt (ord ! a) = cnt (ord ! b) \<and> ord ! a < ord ! b)))"
proof -
  have lA: "length flags_A = length groups_A"
    using FindGroups_partition(2) [OF assms(1,4)] .
  have lB: "length flags_B = length groups_B"
    using FindGroups_partition(2) [OF assms(1,5)] .
  obtain gA fA where sA: "shuffle_groups R num_data groups_A flags_A = (gA, fA)"
    by (cases "shuffle_groups R num_data groups_A flags_A")
  obtain gB fB where sB: "shuffle_groups R num_data groups_B flags_B = (gB, fB)"
    by (cases "shuffle_groups R num_data groups_B flags_B")
  note pA = shuffle_groups_perm [OF assms(1) lA sA]
  note pB = shuffle_groups_perm [OF assms(1) lB sB]
  have ffb: "FastFeatureBundling R bin_mappers sample_indices sample_values num_per_col
             num_sample_col total_sample_cnt used_features num_data is_use_gpu
             = Inr (if length groups_A > length groups_B then (gB, fB) else (gA, fA))"
    using assms(2-5) sA sB by (simp add: FastFeatureBundling_def)
  have chosen: "\<exists>groups flags.
           FastFeatureBundling R bin_mappers sample_indices sample_values num_per_col
             num_sample_col total_sample_cnt used_features num_data is_use_gpu
             = Inr (groups, flags) \<and>
           length groups = min (length groups_A) (length groups_B) \<and>
           length flags = length groups \<and>
           mset (zip groups flags) =
             (if length groups_A \<le> length groups_B then mset (zip groups_A flags_A)
              else mset (zip groups_B flags_B))"
  proof (cases "length groups_A > length groups_B")
    case True
    then show ?thesis using ffb pB by auto
  next
    case False
    then show ?thesis using ffb pA by auto
  qed
  let ?fc = "feature_non_zero_cnt num_per_col num_sample_col used_features"
  let ?ord = "sorted_idx ?fc"
  define cnt where "cnt = (\<lambda>i. if int (used_features ! i) < num_sample_col
                         then to_size_t (num_per_col ! (used_features ! i)) else 0)"
  have len: "length ?fc = length used_features" by (simp add: feature_non_zero_cnt_def)
  have fc: "?fc ! i = cnt i" if "i < length used_features" for i
    using that by (simp add: feature_non_zero_cnt_def cnt_def)
  have perm: "mset ?ord = mset [0..<length used_features]"
    using sorted_idx_perm [of ?fc] len by simp
  have rng: "?ord ! a < length used_features" if "a < length ?ord" for a
  proof -
    have "?ord ! a \<in> set ?ord" using that by simp
    then have "?ord ! a \<in> set [0..<length used_features]"
      using perm by (metis set_mset_mset)
    then show ?thesis by simp
  qed
  have st: "cnt (?ord ! a) > cnt (?ord ! b) \<or>
            (cnt (?ord ! a) = cnt (?ord ! b) \<and> ?ord ! a < ?ord ! b)"
    if "a < b" "b < length ?ord" for a b
  proof -
    have a: "a < length ?ord" using that by simp
    show ?thesis
      using sorted_idx_stable_sort [OF that] fc [OF rng [OF a]] fc [OF rng [OF that(2)]]
      by simp
  qed
  have order: "\<exists>ord cnt'.
             cnt' = (\<lambda>i. if int (used_features ! i) < num_sample_col
                         then to_size_t (num_per_col ! (used_features ! i)) else 0) \<and>
             feature_order_by_cnt num_per_col num_sample_col used_features
               = map (\<lambda>i. used_features ! i) ord \<and>
             mset ord = mset [0..<length used_features] \<and>
             (\<forall>a b. a < b \<and> b < length ord \<longrightarrow>
                cnt' (ord ! a) > cnt' (ord ! b) \<or>
                (cnt' (ord ! a) = cnt' (ord ! b) \<and> ord ! a < ord ! b))"
  proof (intro exI conjI)
    show "cnt = (\<lambda>i. if int (used_features ! i) < num_sample_col
                         then to_size_t (num_per_col ! (used_features ! i)) else 0)"
      by (rule cnt_def)
    show "feature_order_by_cnt num_per_col num_sample_col used_features
               = map (\<lambda>i. used_features ! i) ?ord"
      by (simp add: feature_order_by_cnt_def)
    show "mset ?ord = mset [0..<length used_features]" by (rule perm)
    show "\<forall>a b. a < b \<and> b < length ?ord \<longrightarrow>
                cnt (?ord ! a) > cnt (?ord ! b) \<or>
                (cnt (?ord ! a) = cnt (?ord ! b) \<and> ?ord ! a < ?ord ! b)"
      using st by blast
  qed
  show ?thesis using chosen order by (rule conjI)
qed

lemma select_search_groups_cong:
  "Sample R1 = Sample R2 \<Longrightarrow> select_search_groups R1 r avail = select_search_groups R2 r avail"
  by (simp add: select_search_groups_def)

lemma round1_step_cong:
  "Sample R1 = Sample R2 \<Longrightarrow>
   round1_step R1 bm si npc nsc S gpu fidx st = round1_step R2 bm si npc nsc S gpu fidx st"
  by (simp add: round1_step_def select_search_groups_cong [of R1 R2])

lemma round2_step_cong:
  "Sample R1 = Sample R2 \<Longrightarrow>
   round2_step R1 bm si npc nsc S gpu fidx st = round2_step R2 bm si npc nsc S gpu fidx st"
  by (simp add: round2_step_def select_search_groups_cong [of R1 R2])

lemma FindGroups_cong:
  assumes "Random_seed R1 N = Random_seed R2 N" "Sample R1 = Sample R2"
  shows "FindGroups R1 bm order si npc nsc S N gpu = FindGroups R2 bm order si npc nsc S N gpu"
proof -
  have s1: "round1_step R1 bm si npc nsc S gpu = round1_step R2 bm si npc nsc S gpu"
    using round1_step_cong [OF assms(2)] by (intro ext)
  have s2: "round2_step R1 bm si npc nsc S gpu = round2_step R2 bm si npc nsc S gpu"
    using round2_step_cong [OF assms(2)] by (intro ext)
  have i: "FindGroups_init R1 N = FindGroups_init R2 N"
    using assms(1) by (simp add: FindGroups_init_def)
  show ?thesis
    unfolding FindGroups_def FindGroups_run_def FindGroups_round1_def s1 s2 i ..
qed

lemma shuffle_groups_cong:
  assumes "Random_seed R1 N = Random_seed R2 N" "NextShort R1 = NextShort R2"
  shows "shuffle_groups R1 N groups flags = shuffle_groups R2 N groups flags"
proof -
  have "shuffle_step R1 = shuffle_step R2"
    using assms(2) by (intro ext) (simp add: shuffle_step_def)
  then show ?thesis using assms(1) by (simp add: shuffle_groups_def)
qed

text \<open>
  Claim C9. The result of \<open>FastFeatureBundling\<close> depends on the generators it creates only
  through the state they are seeded to with \<open>num_data\<close>: two runs on the same input, with
  generators that draw alike and that agree on the seed \<open>num_data\<close> (whatever they do for
  other seeds), return the same \<open>features_in_group\<close> and the same flags, or fail alike.
\<close>

theorem FastFeatureBundling_deterministic:
  assumes "Random_seed R1 num_data = Random_seed R2 num_data"
    and "Sample R1 = Sample R2" and "NextShort R1 = NextShort R2"
  shows "FastFeatureBundling R1 bin_mappers sample_indices sample_values num_per_col
           num_sample_col total_sample_cnt used_features num_data is_use_gpu
       = FastFeatureBundling R2 bin_mappers sample_indices sample_values num_per_col
           num_sample_col total_sample_cnt used_features num_data is_use_gpu"
  unfolding FastFeatureBundling_def
  by (simp only: FindGroups_cong [OF assms(1,2)] shuffle_groups_cong [OF assms(1,3)])

theorem FastFeatureBundling_deterministic_witness:
  "Random_seed counter_Random 4 = Random_seed reseeded_Random 4 \<and>
   Sample counter_Random = Sample reseeded_Random \<and>
   NextShort counter_Random = NextShort reseeded_Random \<and>
   Random_seed counter_Random 5 \<noteq> Random_seed reseeded_Random 5 \<and>
   FastFeatureBundling counter_Random wide_mappers wide_indices wide_values [1, 1, 1, 1] 4 4
     [0, 1, 2, 3] 4 True
   = FastFeatureBundling reseeded_Random wide_mappers wide_indices wide_values [1, 1, 1, 1] 4 4
     [0, 1, 2, 3] 4 True \<and>
   FastFeatureBundling reseeded_Random wide_mappers wide_indices wide_values [1, 1, 1, 1] 4 4
     [0, 1, 2, 3] 4 True = Inr ([[2], [0, 1, 3]], [False, True])"
proof -
  have a: "Random_seed counter_Random 4 = Random_seed reseeded_Random 4"
    and b: "Sample counter_Random = Sample reseeded_Random"
    and c: "NextShort counter_Random = NextShort reseeded_Random"
    and d: "Random_seed counter_Random 5 \<noteq> Random_seed reseeded_Random 5"
    by (simp_all add: reseeded_Random_def counter_Random_def)
  have e: "FastFeatureBundling counter_Random wide_mappers wide_indices wide_values [1, 1, 1, 1]
      4 4 [0, 1, 2, 3] 4 True = Inr ([[2], [0, 1, 3]], [False, True])"
    by code_simp
  from FastFeatureBundling_deterministic [OF a b c, of wide_mappers wide_indices wide_values
      "[1, 1, 1, 1]" 4 4 "[0, 1, 2, 3]" True] a b c d e
  show ?thesis by simp
qed

theorem FastFeatureBundling_chooses_and_shuffles_witness:
  "Random_ok counter_Random \<and> (0::int) \<le> 4 \<and>
   fixed_samples order_mappers order_indices order_values [1, 2, 3, 4] 4 10 [0, 1, 2, 3]
     = (order_indices, [1, 2, 3, 4]) \<and>
   feature_order_by_cnt [1, 2, 3, 4] 4 [0, 1, 2, 3] = [3, 2, 1, 0] \<and>
   FindGroups counter_Random order_mappers [0, 1, 2, 3] order_indices [1, 2, 3, 4] 4 10 10 True
     = Inr ([[0, 1], [2], [3]], [False, False, False]) \<and>
   FindGroups counter_Random order_mappers (feature_order_by_cnt [1, 2, 3, 4] 4 [0, 1, 2, 3])
     order_indices [1, 2, 3, 4] 4 10 10 True = Inr ([[3, 0], [2, 1]], [True, False]) \<and>
   FastFeatureBundling counter_Random order_mappers order_indices order_values [1, 2, 3, 4] 4 10
     [0, 1, 2, 3] 10 True = Inr ([[2, 1], [3, 0]], [False, True]) \<and>
   (\<exists>groups flags.
      FastFeatureBundling counter_Random order_mappers order_indices order_values [1, 2, 3, 4] 4 10
        [0, 1, 2, 3] 10 True = Inr (groups, flags) \<and>
      length groups = 2 \<and> length flags = 2 \<and>
      mset (zip groups flags) = {#([3, 0], True), ([2, 1], False)#}) \<and>
   fixed_samples wide_mappers wide_indices wide_values [1, 1, 1, 1] 4 4 [0, 1, 2, 3]
     = (wide_indices, [1, 1, 1, 1]) \<and>
   FindGroups counter_Random wide_mappers [0, 1, 2, 3] wide_indices [1, 1, 1, 1] 4 4 4 True
     = Inr ([[0, 1, 3], [2]], [True, False]) \<and>
   FindGroups counter_Random wide_mappers (feature_order_by_cnt [1, 1, 1, 1] 4 [0, 1, 2, 3])
     wide_indices [1, 1, 1, 1] 4 4 4 True = Inr ([[0, 1, 3], [2]], [True, False]) \<and>
   (\<exists>groups flags.
      FastFeatureBundling counter_Random wide_mappers wide_indices wide_values [1, 1, 1, 1] 4 4
        [0, 1, 2, 3] 4 True = Inr (groups, flags) \<and>
      length groups = 2 \<and> length flags = 2 \<and>
      mset (zip groups flags) = {#([0, 1, 3], True), ([2], False)#})"
proof -
  have z: "(0::int) \<le> 4" by simp
  have fs: "fixed_samples order_mappers order_indices order_values [1, 2, 3, 4] 4 10 [0, 1, 2, 3]
     = (order_indices, [1, 2, 3, 4])"
    by code_simp
  have ord: "feature_order_by_cnt [1, 2, 3, 4] 4 [0, 1, 2, 3] = [3, 2, 1, 0]"
    by code_simp
  have A: "FindGroups counter_Random order_mappers [0, 1, 2, 3] order_indices [1, 2, 3, 4] 4 10 10
     True = Inr ([[0, 1], [2], [3]], [False, False, False])"
    by code_simp
  have B: "FindGroups counter_Random order_mappers (feature_order_by_cnt [1, 2, 3, 4] 4 [0, 1, 2, 3])
     order_indices [1, 2, 3, 4] 4 10 10 True = Inr ([[3, 0], [2, 1]], [True, False])"
    by code_simp
  have run: "FastFeatureBundling counter_Random order_mappers order_indices order_values
      [1, 2, 3, 4] 4 10 [0, 1, 2, 3] 10 True = Inr ([[2, 1], [3, 0]], [False, True])"
    by code_simp
  from FastFeatureBundling_chooses_and_shuffles [OF counter_Random_ok z fs A B]
  obtain groups flags where
    "FastFeatureBundling counter_Random order_mappers order_indices order_values [1, 2, 3, 4] 4 10
        [0, 1, 2, 3] 10 True = Inr (groups, flags)"
    "length groups = min (length [[0, 1], [2], [3::nat]]) (length [[3, 0], [2, 1::nat]])"
    "length flags = length groups"
    "mset (zip groups flags) =
      (if length [[0, 1], [2], [3::nat]] \<le> length [[3, 0], [2, 1::nat]]
       then mset (zip [[0, 1], [2], [3]] [False, False, False])
       else mset (zip [[3, 0], [2, 1]] [True, False]))"
    by blast
  then have first: "\<exists>groups flags.
      FastFeatureBundling counter_Random order_mappers order_indices order_values [1, 2, 3, 4] 4 10
        [0, 1, 2, 3] 10 True = Inr (groups, flags) \<and>
      length groups = 2 \<and> length flags = 2 \<and>
      mset (zip groups flags) = {#([3, 0], True), ([2, 1], False)#}"
    by simp
  have fs': "fixed_samples wide_mappers wide_indices wide_values [1, 1, 1, 1] 4 4 [0, 1, 2, 3]
     = (wide_indices, [1, 1, 1, 1])"
    by code_simp
  have A': "FindGroups counter_Random wide_mappers [0, 1, 2, 3] wide_indices [1, 1, 1, 1] 4 4 4 True
     = Inr ([[0, 1, 3], [2]], [True, False])"
    by code_simp
  have B': "FindGroups counter_Random wide_mappers (feature_order_by_cnt [1, 1, 1, 1] 4 [0, 1, 2, 3])
     wide_indices [1, 1, 1, 1] 4 4 4 True = Inr ([[0, 1, 3], [2]], [True, False])"
    by code_simp
  from FastFeatureBundling_chooses_and_shuffles [OF counter_Random_ok z fs' A' B']
  obtain groups' flags' where
    "FastFeatureBundling counter_Random wide_mappers wide_indices wide_values [1, 1, 1, 1] 4 4
        [0, 1, 2, 3] 4 True = Inr (groups', flags')"
    "length groups' = min (length [[0, 1, 3], [2::nat]]) (length [[0, 1, 3], [2::nat]])"
    "length flags' = length groups'"
    "mset (zip groups' flags') =
      (if length [[0, 1, 3], [2::nat]] \<le> length [[0, 1, 3], [2::nat]]
       then mset (zip [[0, 1, 3], [2]] [True, False])
       else mset (zip [[0, 1, 3], [2]] [True, False]))"
    by blast
  then have second: "\<exists>groups flags.
      FastFeatureBundling counter_Random wide_mappers wide_indices wide_values [1, 1, 1, 1] 4 4
        [0, 1, 2, 3] 4 True = Inr (groups, flags) \<and>
      length groups = 2 \<and> length flags = 2 \<and>
      mset (zip groups flags) = {#([0, 1, 3], True), ([2], False)#}"
    by simp
  show ?thesis
    using counter_Random_ok z fs ord A B run first fs' A' B' second by (intro conjI)
qed

section \<open>Properties of Construct\<close>

lemma Construct_feature_maps_of:
  "(case Construct_feature i p (c, bms, cbm, ds) of (c', bms', cbm', ds') \<Rightarrow> maps_of (c', ds'))
     = assign_maps (snd p) (maps_of (c, ds))"
  by (cases p) (simp add: Construct_feature_def maps_of_def assign_maps_def Let_def)

lemma fold_Construct_feature_maps_of:
  "(case fold (Construct_feature i) ps (c, bms, cbm, ds) of
      (c', bms', cbm', ds') \<Rightarrow> maps_of (c', ds'))
     = fold assign_maps (map snd ps) (maps_of (c, ds))"
proof (induction ps arbitrary: c bms cbm ds)
  case Nil
  show ?case by simp
next
  case (Cons p ps)
  obtain c1 bms1 cbm1 ds1 where st: "Construct_feature i p (c, bms, cbm, ds) = (c1, bms1, cbm1, ds1)"
    by (cases "Construct_feature i p (c, bms, cbm, ds)")
  have "maps_of (c1, ds1) = assign_maps (snd p) (maps_of (c, ds))"
    using Construct_feature_maps_of [of i p c bms cbm ds] st by simp
  then show ?case using Cons.IH [of c1 bms1 cbm1 ds1] st by simp
qed

lemma Construct_group_maps_of:
  "(case Construct_group nfg groups flags i (c, bms, ds) of (c', bms', ds') \<Rightarrow> maps_of (c', ds'))
     = fold assign_maps (groups ! i) (maps_of (c, ds))"
proof -
  let ?fs = "groups ! i"
  obtain c1 bms1 cbm1 ds1 where f: "fold (Construct_feature i) (zip [0..<length ?fs] ?fs)
      (c, bms, [], ds) = (c1, bms1, cbm1, ds1)"
    by (cases "fold (Construct_feature i) (zip [0..<length ?fs] ?fs) (c, bms, [], ds)")
  have "maps_of (c1, ds1) = fold assign_maps (map snd (zip [0..<length ?fs] ?fs)) (maps_of (c, ds))"
    using fold_Construct_feature_maps_of [of i "zip [0..<length ?fs] ?fs" c bms "[]" ds] f by simp
  then have "maps_of (c1, ds1) = fold assign_maps ?fs (maps_of (c, ds))" by simp
  then show ?thesis using f by (simp add: Construct_group_def Let_def maps_of_def)
qed

lemma fold_Construct_group_maps_of:
  "(case fold (Construct_group nfg groups flags) gids (c, bms, ds) of
      (c', bms', ds') \<Rightarrow> maps_of (c', ds'))
     = fold assign_maps (concat (map (\<lambda>i. groups ! i) gids)) (maps_of (c, ds))"
proof (induction gids arbitrary: c bms ds)
  case Nil
  show ?case by simp
next
  case (Cons i gids)
  obtain c1 bms1 ds1 where st: "Construct_group nfg groups flags i (c, bms, ds) = (c1, bms1, ds1)"
    by (cases "Construct_group nfg groups flags i (c, bms, ds)")
  have "maps_of (c1, ds1) = fold assign_maps (groups ! i) (maps_of (c, ds))"
    using Construct_group_maps_of [of nfg groups flags i c bms ds] st by simp
  then show ?case using Cons.IH [of c1 bms1 ds1] st by simp
qed

lemma assign_maps_apply:
  "assign_maps f (c, u, r) = (c + 1, u[f := int c], r[c := int f])"
  by (simp add: assign_maps_def)

lemma fold_assign_maps:
  assumes "fold assign_maps fl (c, u, r) = (c', u', r')"
    and "distinct fl" and "\<forall>f \<in> set fl. f < length u" and "c + length fl \<le> length r"
  shows "c' = c + length fl \<and> length u' = length u \<and> length r' = length r
       \<and> (\<forall>k < length fl. u' ! (fl ! k) = int (c + k) \<and> r' ! (c + k) = int (fl ! k))
       \<and> (\<forall>f < length u. f \<notin> set fl \<longrightarrow> u' ! f = u ! f)
       \<and> (\<forall>k < c. r' ! k = r ! k)"
  using assms
proof (induction fl arbitrary: c u r)
  case Nil
  then show ?case by simp
next
  case (Cons f fl)
  have step: "fold assign_maps fl (c + 1, u[f := int c], r[c := int f]) = (c', u', r')"
    using Cons.prems(1) by (simp add: assign_maps_apply)
  have ih: "c' = c + 1 + length fl \<and> length u' = length (u[f := int c])
       \<and> length r' = length (r[c := int f])
       \<and> (\<forall>k < length fl. u' ! (fl ! k) = int (c + 1 + k) \<and> r' ! (c + 1 + k) = int (fl ! k))
       \<and> (\<forall>g < length (u[f := int c]). g \<notin> set fl \<longrightarrow> u' ! g = u[f := int c] ! g)
       \<and> (\<forall>k < c + 1. r' ! k = r[c := int f] ! k)"
    by (rule Cons.IH [OF step]) (use Cons.prems in auto)
  have f_in: "f < length u" "f \<notin> set fl" "c < length r" using Cons.prems by auto
  have head: "u' ! f = int c" "r' ! c = int f" using ih f_in by auto
  have pos: "u' ! ((f # fl) ! k) = int (c + k) \<and> r' ! (c + k) = int ((f # fl) ! k)"
    if "k < length (f # fl)" for k
  proof (cases k)
    case 0
    then show ?thesis using head by simp
  next
    case (Suc k')
    then show ?thesis using ih that by simp
  qed
  have rest: "u' ! g = u ! g" if "g < length u" "g \<notin> set (f # fl)" for g
    using ih that by auto
  have before: "r' ! k = r ! k" if "k < c" for k using ih that by auto
  show ?case using ih pos rest before by auto
qed

lemma mset_concat_cong:
  assumes "mset xss = mset yss"
  shows "mset (concat xss) = mset (concat yss)"
proof -
  have "mset (concat zss) = sum_mset (image_mset mset (mset zss))" for zss :: "'a list list"
    by (simp add: mset_concat flip: sum_mset_sum_list)
  then show ?thesis using assms by simp
qed

lemma mset_zip_fst:
  assumes "mset (zip xs ys) = mset (zip xs' ys')" "length ys = length xs" "length ys' = length xs'"
  shows "mset xs = mset xs'"
proof -
  have "mset (map fst (zip xs ys)) = mset (map fst (zip xs' ys'))"
    using assms(1) by simp
  then show ?thesis using assms(2,3) by (simp del: mset_map)
qed

lemma FastFeatureBundling_partition:
  assumes "Random_ok R"
    and "FastFeatureBundling R bm si sv npc nsc S used N gpu = Inr (groups, flags)"
  shows "mset (concat groups) = mset used \<and> length flags = length groups"
proof -
  obtain indices tmp where fs: "fixed_samples bm si sv npc nsc S used = (indices, tmp)"
    by (cases "fixed_samples bm si sv npc nsc S used")
  have nsc: "0 \<le> nsc" using assms(2) by (auto simp: FastFeatureBundling_def split: if_splits)
  obtain gA fA where A: "FindGroups R bm used indices tmp nsc S N gpu = Inr (gA, fA)"
    using assms(2) fs nsc
    by (cases "FindGroups R bm used indices tmp nsc S N gpu")
       (auto simp: FastFeatureBundling_def)
  obtain gB fB where B: "FindGroups R bm (feature_order_by_cnt npc nsc used) indices tmp nsc S N gpu
      = Inr (gB, fB)"
    using assms(2) fs nsc A
    by (cases "FindGroups R bm (feature_order_by_cnt npc nsc used) indices tmp nsc S N gpu")
       (auto simp: FastFeatureBundling_def)
  note pA = FindGroups_partition [OF assms(1) A]
  note pB = FindGroups_partition [OF assms(1) B]
  have res: "(groups, flags) = (if length gA > length gB then shuffle_groups R N gB fB
      else shuffle_groups R N gA fA)"
    using assms(2) fs nsc A B by (simp add: FastFeatureBundling_def)
  show ?thesis
  proof (cases "length gA > length gB")
    case True
    then have s: "shuffle_groups R N gB fB = (groups, flags)" using res by simp
    from shuffle_groups_perm [OF assms(1) pB(2) s]
    have l: "length groups = length gB" "length flags = length gB"
      and m: "mset (zip groups flags) = mset (zip gB fB)" by simp_all
    have "mset groups = mset gB" using mset_zip_fst [OF m] l pB(2) by simp
    then show ?thesis using mset_concat_cong pB(1) feature_order_by_cnt_perm l by metis
  next
    case False
    then have s: "shuffle_groups R N gA fA = (groups, flags)" using res by simp
    from shuffle_groups_perm [OF assms(1) pA(2) s]
    have l: "length groups = length gA" "length flags = length gA"
      and m: "mset (zip groups flags) = mset (zip gA fA)" by simp_all
    have "mset groups = mset gA" using mset_zip_fst [OF m] l pA(2) by simp
    then show ?thesis using mset_concat_cong pA(1) l by metis
  qed
qed

lemma used_features_of_props:
  "distinct (used_features_of bm)"
  "f \<in> set (used_features_of bm) \<longleftrightarrow> f < length bm \<and> (\<exists>m. bm ! f = Some m \<and> \<not> is_trivial m)"
  by (auto simp: used_features_of_def split: option.splits)

lemma sum_list_int_length: "(\<Sum>fs \<leftarrow> groups. int (length fs)) = int (length (concat groups))"
  by (induction groups) simp_all

lemma Construct_boundaries_maps:
  "used_feature_map_m (Construct_boundaries ds) = used_feature_map_m ds"
  "real_feature_idx_m (Construct_boundaries ds) = real_feature_idx_m ds"
  "num_features_m (Construct_boundaries ds) = num_features_m ds"
  by (simp_all add: Construct_boundaries_def Let_def split: prod.splits)

lemma Construct_monotone_maps:
  assumes "Construct_monotone cfg ds = Inr ds'"
  shows "used_feature_map_m ds' = used_feature_map_m ds"
    "real_feature_idx_m ds' = real_feature_idx_m ds" "num_features_m ds' = num_features_m ds"
  using assms by (auto simp: Construct_monotone_def Let_def split: if_splits)

lemma Construct_penalty_maps:
  assumes "Construct_penalty cfg ds = Inr ds'"
  shows "used_feature_map_m ds' = used_feature_map_m ds"
    "real_feature_idx_m ds' = real_feature_idx_m ds" "num_features_m ds' = num_features_m ds"
  using assms by (auto simp: Construct_penalty_def Let_def split: if_splits)

lemma Construct_max_bin_maps:
  assumes "Construct_max_bin cfg ds = Inr ds'"
  shows "used_feature_map_m ds' = used_feature_map_m ds"
    "real_feature_idx_m ds' = real_feature_idx_m ds" "num_features_m ds' = num_features_m ds"
  using assms by (auto simp: Construct_max_bin_def Let_def split: if_splits)

lemma Construct_maps_from_groups:
  assumes "Construct R nfg ds bm ntf forced si sv npc nsc S cfg = Inr ds'"
  obtains ds1 where "Construct_groups R nfg ds bm ntf si sv npc nsc S cfg = Inr ds1"
    "used_feature_map_m ds' = used_feature_map_m ds1"
    "real_feature_idx_m ds' = real_feature_idx_m ds1"
    "num_features_m ds' = num_features_m ds1"
proof -
  from assms obtain ds1 ds2 ds3 ds4 where
    g: "Construct_groups R nfg ds bm ntf si sv npc nsc S cfg = Inr ds1"
    and m: "Construct_monotone cfg (Construct_boundaries ds1) = Inr ds2"
    and p: "Construct_penalty cfg ds2 = Inr ds3"
    and b: "Construct_max_bin cfg ds3 = Inr ds4"
    and r: "ds' = ds4\<lparr>forced_bin_bounds_m := forced, max_bin_m := max_bin cfg,
               min_data_in_bin_m := min_data_in_bin cfg,
               bin_construct_sample_cnt_m := bin_construct_sample_cnt cfg,
               use_missing_m := use_missing cfg, zero_as_missing_m := zero_as_missing cfg\<rparr>"
    by (auto simp: Construct_def split: sum.splits)
  show thesis
    by (rule that [OF g])
       (simp_all add: r Construct_max_bin_maps [OF b] Construct_penalty_maps [OF p]
          Construct_monotone_maps [OF m] Construct_boundaries_maps)
qed

lemma Construct_feature_num_features:
  "(case Construct_feature i p (c, bms, cbm, ds) of (c', bms', cbm', ds') \<Rightarrow> num_features_m ds')
     = num_features_m ds"
  by (cases p) (simp add: Construct_feature_def Let_def)

lemma fold_Construct_feature_num_features:
  "(case fold (Construct_feature i) ps (c, bms, cbm, ds) of
      (c', bms', cbm', ds') \<Rightarrow> num_features_m ds') = num_features_m ds"
proof (induction ps arbitrary: c bms cbm ds)
  case Nil
  show ?case by simp
next
  case (Cons p ps)
  obtain c1 bms1 cbm1 ds1 where st: "Construct_feature i p (c, bms, cbm, ds) = (c1, bms1, cbm1, ds1)"
    by (cases "Construct_feature i p (c, bms, cbm, ds)")
  have "num_features_m ds1 = num_features_m ds"
    using Construct_feature_num_features [of i p c bms cbm ds] st by simp
  then show ?case using Cons.IH [of c1 bms1 cbm1 ds1] st by simp
qed

lemma Construct_group_num_features:
  "(case Construct_group nfg groups flags i (c, bms, ds) of (c', bms', ds') \<Rightarrow> num_features_m ds')
     = num_features_m ds"
proof -
  let ?fs = "groups ! i"
  obtain c1 bms1 cbm1 ds1 where f: "fold (Construct_feature i) (zip [0..<length ?fs] ?fs)
      (c, bms, [], ds) = (c1, bms1, cbm1, ds1)"
    by (cases "fold (Construct_feature i) (zip [0..<length ?fs] ?fs) (c, bms, [], ds)")
  have "num_features_m ds1 = num_features_m ds"
    using fold_Construct_feature_num_features [of i "zip [0..<length ?fs] ?fs" c bms "[]" ds] f
    by simp
  then show ?thesis using f by (simp add: Construct_group_def Let_def)
qed

lemma fold_Construct_group_num_features:
  "(case fold (Construct_group nfg groups flags) gids (c, bms, ds) of
      (c', bms', ds') \<Rightarrow> num_features_m ds') = num_features_m ds"
proof (induction gids arbitrary: c bms ds)
  case Nil
  show ?case by simp
next
  case (Cons i gids)
  obtain c1 bms1 ds1 where st: "Construct_group nfg groups flags i (c, bms, ds) = (c1, bms1, ds1)"
    by (cases "Construct_group nfg groups flags i (c, bms, ds)")
  have "num_features_m ds1 = num_features_m ds"
    using Construct_group_num_features [of nfg groups flags i c bms ds] st by simp
  then show ?case using Cons.IH [of c1 bms1 ds1] st by simp
qed

lemma Construct_groups_maps:
  assumes "Random_ok R" "Construct_groups R nfg ds bm ntf si sv npc nsc S cfg = Inr ds1"
  obtains fl c where "mset fl = mset (used_features_of bm)"
    "num_features_m ds1 = int (length fl)"
    "fold assign_maps fl (0, replicate (length bm) (-1),
                          resize (real_feature_idx_m ds) (length fl) 0)
       = (c, used_feature_map_m ds1, real_feature_idx_m ds1)"
proof -
  have ntf: "ntf = int (length bm)"
    using assms(2) by (auto simp: Construct_groups_def split: if_splits)
  let ?used = "used_features_of bm"
  let ?bundling = "if enable_bundle cfg \<and> ?used \<noteq> []
                  then FastFeatureBundling R bm si sv npc nsc (to_data_size_t S)
                         ?used (num_data_m ds) (device_type cfg = ''gpu'')
                  else Inr (NoGroup ?used, replicate (length ?used) False)"
  obtain groups flags where bun: "?bundling = Inr (groups, flags)"
    using assms(2) ntf by (cases ?bundling) (auto simp: Construct_groups_def Let_def)
  have part: "mset (concat groups) = mset ?used"
  proof (cases "enable_bundle cfg \<and> ?used \<noteq> []")
    case True
    then have "FastFeatureBundling R bm si sv npc nsc (to_data_size_t S)
                         ?used (num_data_m ds) (device_type cfg = ''gpu'') = Inr (groups, flags)"
      using bun by simp
    from FastFeatureBundling_partition [OF assms(1) this] show ?thesis by simp
  next
    case False
    then have "groups = NoGroup ?used" using bun by auto
    then show ?thesis by (simp add: NoGroup_def concat_map_singleton)
  qed
  let ?fl = "concat groups"
  let ?nf = "\<Sum>fs \<leftarrow> groups. int (length fs)"
  let ?ds1 = "ds\<lparr>num_total_features_m := ntf, num_features_m := ?nf,
                used_feature_map_m := replicate (nat ntf) (-1),
                num_groups_m := int (length groups),
                real_feature_idx_m := resize (real_feature_idx_m ds) (nat ?nf) 0,
                feature2group_m := resize (feature2group_m ds) (nat ?nf) 0,
                feature2subfeature_m := resize (feature2subfeature_m ds) (nat ?nf) 0,
                feature_need_push_zeros_m := []\<rparr>"
  obtain c bms ds2 where f: "fold (Construct_group nfg groups flags) [0..<length groups]
      (0, bm, ?ds1) = (c, bms, ds2)"
    by (cases "fold (Construct_group nfg groups flags) [0..<length groups] (0, bm, ?ds1)")
  have ds1: "ds1 = ds2"
    using assms(2) ntf bun f by (simp add: Construct_groups_def Let_def)
  have "maps_of (c, ds2) =
      fold assign_maps (concat (map (\<lambda>i. groups ! i) [0..<length groups])) (maps_of (0, ?ds1))"
    using fold_Construct_group_maps_of [of nfg groups flags "[0..<length groups]" 0 bm ?ds1] f
    by simp
  then have m: "(c, used_feature_map_m ds2, real_feature_idx_m ds2) =
      fold assign_maps ?fl (0, replicate (length bm) (-1),
                            resize (real_feature_idx_m ds) (length ?fl) 0)"
    by (simp add: maps_of_def map_nth ntf sum_list_int_length)
  have nf: "num_features_m ds2 = int (length ?fl)"
    using fold_Construct_group_num_features [of nfg groups flags "[0..<length groups]" 0 bm ?ds1] f
    by (simp add: sum_list_int_length)
  show thesis
    by (rule that [of ?fl c]) (use part nf m ds1 in simp_all)
qed

text \<open>
  Claim C2. After \<open>Construct\<close> (with a generator that keeps its contract): every input
  feature \<open>f\<close> with a mapper that is not trivial has an inner number
  \<open>used_feature_map[f]\<close> in \<open>[0, num_features)\<close> with
  \<open>real_feature_idx[used_feature_map[f]] = f\<close>; every inner number \<open>i\<close> below
  \<open>num_features\<close> has \<open>used_feature_map[real_feature_idx[i]] = i\<close>; and for a feature
  whose mapper is null or trivial \<open>used_feature_map\<close> is \<open>-1\<close>.
\<close>

theorem Construct_feature_maps:
  assumes "Random_ok R"
    and "Construct R new_FeatureGroup ds bin_mappers num_total_features forced_bins
           sample_non_zero_indices sample_values num_per_col num_sample_col total_sample_cnt
           io_config = Inr ds'"
  shows "(\<forall>f < length bin_mappers.
            (\<exists>m. bin_mappers ! f = Some m \<and> \<not> is_trivial m) \<longrightarrow>
            0 \<le> used_feature_map_m ds' ! f \<and> used_feature_map_m ds' ! f < num_features_m ds' \<and>
            real_feature_idx_m ds' ! nat (used_feature_map_m ds' ! f) = int f)
       \<and> (\<forall>i < nat (num_features_m ds').
            0 \<le> real_feature_idx_m ds' ! i \<and>
            real_feature_idx_m ds' ! i < int (length bin_mappers) \<and>
            used_feature_map_m ds' ! nat (real_feature_idx_m ds' ! i) = int i)
       \<and> (\<forall>f < length bin_mappers.
            \<not> (\<exists>m. bin_mappers ! f = Some m \<and> \<not> is_trivial m) \<longrightarrow>
            used_feature_map_m ds' ! f = -1)
       \<and> length (used_feature_map_m ds') = length bin_mappers
       \<and> int (length (real_feature_idx_m ds')) = num_features_m ds'"
proof -
  from assms(2) obtain ds1 where
    g: "Construct_groups R new_FeatureGroup ds bin_mappers num_total_features
           sample_non_zero_indices sample_values num_per_col num_sample_col total_sample_cnt
           io_config = Inr ds1"
    and eqs: "used_feature_map_m ds' = used_feature_map_m ds1"
      "real_feature_idx_m ds' = real_feature_idx_m ds1"
      "num_features_m ds' = num_features_m ds1"
    by (rule Construct_maps_from_groups)
  from assms(1) g obtain fl c where fl: "mset fl = mset (used_features_of bin_mappers)"
    and nf: "num_features_m ds1 = int (length fl)"
    and fold: "fold assign_maps fl (0, replicate (length bin_mappers) (-1),
                          resize (real_feature_idx_m ds) (length fl) 0)
       = (c, used_feature_map_m ds1, real_feature_idx_m ds1)"
    by (rule Construct_groups_maps)
  let ?u = "used_feature_map_m ds1"
  let ?r = "real_feature_idx_m ds1"
  have dist: "distinct fl"
    using fl used_features_of_props(1) [of bin_mappers] mset_eq_imp_distinct_iff by blast
  have set_fl: "set fl = set (used_features_of bin_mappers)" using fl by (rule mset_eq_setD)
  have mem: "f \<in> set fl \<longleftrightarrow>
      f < length bin_mappers \<and> (\<exists>m. bin_mappers ! f = Some m \<and> \<not> is_trivial m)" for f
    unfolding set_fl by (rule used_features_of_props(2))
  have rng: "\<forall>f \<in> set fl. f < length (replicate (length bin_mappers) (-1 :: int))"
    using mem by simp
  have room: "0 + length fl \<le> length (resize (real_feature_idx_m ds) (length fl) (0 :: int))"
    by (simp add: resize_def)
  from fold_assign_maps [OF fold dist rng room]
  have lu: "length ?u = length bin_mappers" and lr: "length ?r = length fl"
    and pos: "\<And>k. k < length fl \<Longrightarrow> ?u ! (fl ! k) = int k \<and> ?r ! k = int (fl ! k)"
    and rest: "\<And>f. f < length bin_mappers \<Longrightarrow> f \<notin> set fl \<Longrightarrow> ?u ! f = -1"
    by (simp_all add: resize_def)
  have used: "0 \<le> ?u ! f \<and> ?u ! f < int (length fl) \<and> ?r ! nat (?u ! f) = int f"
    if "f < length bin_mappers" "\<exists>m. bin_mappers ! f = Some m \<and> \<not> is_trivial m" for f
  proof -
    have "f \<in> set fl" using that mem by simp
    then obtain k where k: "k < length fl" "fl ! k = f" by (auto simp: in_set_conv_nth)
    then show ?thesis using pos [OF k(1)] by simp
  qed
  have inner: "0 \<le> ?r ! i \<and> ?r ! i < int (length bin_mappers) \<and> ?u ! nat (?r ! i) = int i"
    if "i < length fl" for i
  proof -
    have "fl ! i \<in> set fl" using that by simp
    then have "fl ! i < length bin_mappers" using mem by simp
    then show ?thesis using pos [OF that] by simp
  qed
  have unused: "?u ! f = -1"
    if "f < length bin_mappers" "\<not> (\<exists>m. bin_mappers ! f = Some m \<and> \<not> is_trivial m)" for f
    using rest [OF that(1)] that mem by blast
  show ?thesis unfolding eqs nf using used inner unused lu lr by simp
qed

theorem Construct_feature_maps_witness:
  "Random_ok counter_Random \<and>
   (\<exists>ds'. Construct counter_Random example_FeatureGroup fresh_dataset six_mappers 6
            [[], [], [], [], [], []] six_indices six_values [1, 1, 0, 0, 1, 1] 6 4 gpu_config
            = Inr ds' \<and>
          used_feature_map_m ds' = [1, 2, -1, -1, 0, 3] \<and>
          real_feature_idx_m ds' = [4, 0, 1, 5] \<and>
          num_features_m ds' = 4 \<and>
          real_feature_idx_m ds' ! nat (used_feature_map_m ds' ! 1) = 1 \<and>
          used_feature_map_m ds' ! nat (real_feature_idx_m ds' ! 3) = 3 \<and>
          used_feature_map_m ds' ! 2 = -1 \<and> used_feature_map_m ds' ! 3 = -1)"
proof -
  let ?run = "Construct counter_Random example_FeatureGroup fresh_dataset six_mappers 6
            [[], [], [], [], [], []] six_indices six_values [1, 1, 0, 0, 1, 1] 6 4 gpu_config"
  have "case ?run of Inl e \<Rightarrow> False
        | Inr d \<Rightarrow> used_feature_map_m d = [1, 2, -1, -1, 0, 3] \<and>
                   real_feature_idx_m d = [4, 0, 1, 5] \<and> num_features_m d = 4"
    by code_simp
  then obtain ds' where run: "?run = Inr ds'"
    and vals: "used_feature_map_m ds' = [1, 2, -1, -1, 0, 3]"
      "real_feature_idx_m ds' = [4, 0, 1, 5]" "num_features_m ds' = 4"
    by (cases ?run) simp_all
  have m1: "\<exists>m. six_mappers ! 1 = Some m \<and> \<not> is_trivial m"
    and m2: "\<not> (\<exists>m. six_mappers ! 2 = Some m \<and> \<not> is_trivial m)"
    and m3: "\<not> (\<exists>m. six_mappers ! 3 = Some m \<and> \<not> is_trivial m)"
    by (simp_all add: six_mappers_def two_bin_mapper_def)
  have len: "length six_mappers = 6" by (simp add: six_mappers_def)
  note maps = Construct_feature_maps [OF counter_Random_ok run]
  have a: "real_feature_idx_m ds' ! nat (used_feature_map_m ds' ! 1) = 1"
    using maps m1 len by force
  have b: "used_feature_map_m ds' ! nat (real_feature_idx_m ds' ! 3) = 3"
    using maps vals(3) by force
  have c: "used_feature_map_m ds' ! 2 = -1" "used_feature_map_m ds' ! 3 = -1"
    using maps m2 m3 len by force+
  show ?thesis using counter_Random_ok run vals a b c by blast
qed

end
